theory Spec2Isabelle
  imports Main "HOL-Library.AList" "HOL-Library.Sublist"
begin

section \<open>Go values as reflection sees them\<close>

text \<open>
  The cache is generic in its entity type \<open>T\<close> and handles entity values only through
  the \<open>reflect\<close> package, so the embedding needs one universe of Go values, split by
  \<open>reflect.Kind\<close> exactly where \<open>copyRecursive\<close> and \<open>reflect.DeepEqual\<close> switch on it.

  \<^item> \<open>VScalar\<close>: booleans, integers and strings, the kinds that reach the
    \<open>default\<close> branch of \<open>copyRecursive\<close>. Floating-point numbers, complex numbers,
    channels, functions and unsafe pointers are not represented.
  \<^item> \<open>VArray\<close>: a fixed-size array; it also reaches the \<open>default\<close> branch.
  \<^item> \<open>VPtr\<close>: \<open>nil\<close> or the address of a cell of the heap. Pointers are the one
    place where the embedding keeps sharing and cycles: a cell may point to itself.
  \<^item> \<open>VIface\<close>: \<open>nil\<close> or a boxed value together with the name of its dynamic type.
  \<^item> \<open>VStruct\<close>: the fields in declaration order, each with its name, whether it is
    exported (\<open>PkgPath = ""\<close>) and its value.
  \<^item> \<open>VSlice\<close>: \<open>nil\<close> or the elements and the capacity. \<open>VMap\<close>: \<open>nil\<close> or the
    entries. Both are held by their contents: the sharing of backing arrays and of map
    objects between two values is not represented.
\<close>

datatype scalar = SBool bool | SInt int | SString string

type_synonym addr = nat

datatype gval =
    VScalar scalar
  | VArray "gval list"
  | VPtr "addr option"
  | VIface "(string \<times> gval) option"
  | VStruct "(string \<times> bool \<times> gval) list"
  | VSlice "(gval list \<times> nat) option"
  | VMap "((gval \<times> gval) list) option"

type_synonym heap = "gval list"

text \<open>
  A call either returns, panics, or is still running when the recursion budget of the
  model is used up. Go \<open>error\<close> results are ordinary return values and are modelled
  separately, inside \<open>Done\<close>.
\<close>

datatype 'a run = OutOfFuel | Panic | Done 'a

definition bind_run :: "'a run \<Rightarrow> ('a \<Rightarrow> 'b run) \<Rightarrow> 'b run" where
  "bind_run m f = (case m of OutOfFuel \<Rightarrow> OutOfFuel | Panic \<Rightarrow> Panic | Done x \<Rightarrow> f x)"

text \<open>A loop over a list whose body may allocate: the heap is threaded through.\<close>

fun mapM_heap :: "('a \<Rightarrow> heap \<Rightarrow> ('b \<times> heap) run) \<Rightarrow> 'a list \<Rightarrow> heap \<Rightarrow> ('b list \<times> heap) run" where
  "mapM_heap f [] h = Done ([], h)"
| "mapM_heap f (x # xs) h =
     bind_run (f x h) (\<lambda>(y, h1).
       bind_run (mapM_heap f xs h1) (\<lambda>(ys, h2). Done (y # ys, h2)))"

text \<open>\<open>reflect.New(t).Elem()\<close>, \<open>reflect.Zero\<close>: the zero value of the type of a value.\<close>

primrec zero_of :: "gval \<Rightarrow> gval" where
  "zero_of (VScalar s) =
     VScalar (case s of SBool _ \<Rightarrow> SBool False | SInt _ \<Rightarrow> SInt 0 | SString _ \<Rightarrow> SString [])"
| "zero_of (VArray xs) = VArray (map zero_of xs)"
| "zero_of (VPtr p) = VPtr None"
| "zero_of (VIface b) = VIface None"
| "zero_of (VStruct fs) = VStruct (map (map_prod id (map_prod id zero_of)) fs)"
| "zero_of (VSlice s) = VSlice None"
| "zero_of (VMap m) = VMap None"

text \<open>
  A map is held as the list of its entries. The map a list denotes is the one \<open>map_of\<close>
  reads from it, so that a key listed twice counts once: these are \<open>Value.MapKeys\<close> and
  \<open>Value.Len\<close>.
\<close>

definition MapKeys :: "(gval \<times> gval) list \<Rightarrow> gval list" where
  "MapKeys kvs = remdups (map fst kvs)"

definition MapLen :: "(gval \<times> gval) list \<Rightarrow> nat" where
  "MapLen kvs = length (MapKeys kvs)"

section \<open>The deep-copy engine\<close>

text \<open>
  \<open>copyRecursive(original, cpy)\<close> writes into the settable location \<open>cpy\<close>; the model
  takes the content of \<open>cpy\<close> before the call and returns its content after it,
  together with the heap. The first argument bounds the depth of the recursion: Go has
  no such bound, so \<open>OutOfFuel\<close> for every budget is a call that never returns.

  In the pointer case the source allocates the target with \<open>reflect.New\<close> and fills it
  through \<open>cpy.Elem()\<close>; the model computes the content first and then appends the cell,
  which gives the same heap up to the numbering of fresh addresses. The map case visits
  the keys in the order of the entry list (Go's order is unspecified) and looks each one
  up with \<open>MapIndex\<close>; the \<open>SetMapIndex\<close> calls are replayed on the collected results.
\<close>

fun copyRecursive :: "nat \<Rightarrow> heap \<Rightarrow> gval \<Rightarrow> gval \<Rightarrow> (gval \<times> heap) run" where
  "copyRecursive 0 h original cpy = OutOfFuel"
| "copyRecursive (Suc n) h (VPtr None) cpy = Done (cpy, h)"
| "copyRecursive (Suc n) h (VPtr (Some a)) cpy =
     (if a < length h
      then bind_run (copyRecursive n h (h ! a) (zero_of (h ! a)))
             (\<lambda>(c, h1). Done (VPtr (Some (length h1)), h1 @ [c]))
      else Panic)"
| "copyRecursive (Suc n) h (VIface None) cpy = Done (cpy, h)"
| "copyRecursive (Suc n) h (VIface (Some (t, v))) cpy =
     bind_run (copyRecursive n h v (zero_of v)) (\<lambda>(c, h1). Done (VIface (Some (t, c)), h1))"
| "copyRecursive (Suc n) h (VStruct fs) cpy =
     (case cpy of
        VStruct cfs \<Rightarrow>
          if length cfs = length fs
          then bind_run
                 (mapM_heap
                    (\<lambda>((name, exported, v), (cname, cexported, c)) h'.
                       if \<not> exported then Done ((cname, cexported, c), h')
                       else bind_run (copyRecursive n h' v c)
                              (\<lambda>(c', h''). Done ((cname, cexported, c'), h'')))
                    (zip fs cfs) h)
                 (\<lambda>(cfs', h1). Done (VStruct cfs', h1))
          else Panic
      | _ \<Rightarrow> Panic)"
| "copyRecursive (Suc n) h (VSlice None) cpy = Done (cpy, h)"
| "copyRecursive (Suc n) h (VSlice (Some (xs, cap))) cpy =
     bind_run (mapM_heap (\<lambda>x h'. copyRecursive n h' x (zero_of x)) xs h)
       (\<lambda>(ys, h1). Done (VSlice (Some (ys, cap)), h1))"
| "copyRecursive (Suc n) h (VMap None) cpy = Done (cpy, h)"
| "copyRecursive (Suc n) h (VMap (Some kvs)) cpy =
     bind_run
       (mapM_heap
          (\<lambda>key h'.
             case map_of kvs key of
               None \<Rightarrow> Panic
             | Some v \<Rightarrow> bind_run (copyRecursive n h' v (zero_of v))
                          (\<lambda>(c, h''). Done ((key, c), h'')))
          (MapKeys kvs) h)
       (\<lambda>(kcs, h1). Done (VMap (Some (foldl (\<lambda>m (key, c). AList.update key c m) [] kcs)), h1))"
| "copyRecursive (Suc n) h (VScalar s) cpy = Done (VScalar s, h)"
| "copyRecursive (Suc n) h (VArray xs) cpy = Done (VArray xs, h)"

text \<open>
  \<open>deepCopy(src T)\<close>: \<open>reflect.ValueOf(src)\<close> unwraps an interface-typed argument to its
  dynamic value, and is the invalid \<open>Value\<close> for a nil interface, on which
  \<open>original.Type()\<close> panics.
\<close>

definition deepCopy :: "nat \<Rightarrow> heap \<Rightarrow> gval \<Rightarrow> (gval \<times> heap) run" where
  "deepCopy n h src =
     (case src of
        VIface None \<Rightarrow> Panic
      | VIface (Some (t, v)) \<Rightarrow>
          bind_run (copyRecursive n h v (zero_of v)) (\<lambda>(c, h1). Done (VIface (Some (t, c)), h1))
      | _ \<Rightarrow> copyRecursive n h src (zero_of src))"


text \<open>
  The bodies of the loops over the fields of a struct and over the keys of a map, named
  so that they can be reasoned about on their own; \<open>copyRecursive_struct\<close> and
  \<open>copyRecursive_map\<close> below show that they are the bodies used above.
\<close>

definition copyField ::
  "nat \<Rightarrow> (string \<times> bool \<times> gval) \<times> (string \<times> bool \<times> gval) \<Rightarrow> heap
     \<Rightarrow> ((string \<times> bool \<times> gval) \<times> heap) run" where
  "copyField n = (\<lambda>((name, exported, v), (cname, cexported, c)) h'.
       if \<not> exported then Done ((cname, cexported, c), h')
       else bind_run (copyRecursive n h' v c)
              (\<lambda>(c', h''). Done ((cname, cexported, c'), h'')))"

definition copyEntry ::
  "nat \<Rightarrow> (gval \<times> gval) list \<Rightarrow> gval \<Rightarrow> heap \<Rightarrow> ((gval \<times> gval) \<times> heap) run" where
  "copyEntry n kvs = (\<lambda>key h'.
       case map_of kvs key of
         None \<Rightarrow> Panic
       | Some v \<Rightarrow> bind_run (copyRecursive n h' v (zero_of v))
                    (\<lambda>(c, h''). Done ((key, c), h'')))"

section \<open>Structural comparison\<close>

text \<open>
  \<open>reflect.DeepEqual\<close> belongs to Go's standard library; the model follows its
  documented rules kind by kind. Both arguments of a call have the same static type, so
  a difference of types can only show inside an interface, where the names of the
  dynamic types are compared; any other difference of shape yields \<open>False\<close>. Two pointers
  are equal when they hold the same address or point to deeply equal values. The
  library's bookkeeping of visited pairs, which lets it finish on cyclic values, is not
  modelled: the budget plays that role.

  The flag \<open>skip\<close> selects between the library function (\<open>skip = False\<close>: every field
  is compared, exported or not) and the comparison the specification describes
  (\<open>skip = True\<close>: fields without external visibility are ignored).
\<close>

fun all2_run :: "('a \<Rightarrow> 'b \<Rightarrow> bool run) \<Rightarrow> 'a list \<Rightarrow> 'b list \<Rightarrow> bool run" where
  "all2_run f [] [] = Done True"
| "all2_run f (x # xs) (y # ys) =
     bind_run (f x y) (\<lambda>b. if b then all2_run f xs ys else Done False)"
| "all2_run f _ _ = Done False"

fun valueEqual :: "bool \<Rightarrow> nat \<Rightarrow> heap \<Rightarrow> gval \<Rightarrow> gval \<Rightarrow> bool run" where
  "valueEqual skip 0 h v1 v2 = OutOfFuel"
| "valueEqual skip (Suc n) h v1 v2 =
     (case v1 of
        VScalar s1 \<Rightarrow> (case v2 of VScalar s2 \<Rightarrow> Done (s1 = s2) | _ \<Rightarrow> Done False)
      | VArray xs \<Rightarrow>
          (case v2 of VArray ys \<Rightarrow> all2_run (valueEqual skip n h) xs ys | _ \<Rightarrow> Done False)
      | VSlice s1 \<Rightarrow>
          (case v2 of
             VSlice s2 \<Rightarrow>
               (case (s1, s2) of
                  (None, None) \<Rightarrow> Done True
                | (Some (xs, c1), Some (ys, c2)) \<Rightarrow>
                    if length xs \<noteq> length ys then Done False
                    else all2_run (valueEqual skip n h) xs ys
                | _ \<Rightarrow> Done False)
           | _ \<Rightarrow> Done False)
      | VIface i1 \<Rightarrow>
          (case v2 of
             VIface i2 \<Rightarrow>
               (case (i1, i2) of
                  (None, None) \<Rightarrow> Done True
                | (Some (t1, x), Some (t2, y)) \<Rightarrow>
                    if t1 \<noteq> t2 then Done False else valueEqual skip n h x y
                | _ \<Rightarrow> Done False)
           | _ \<Rightarrow> Done False)
      | VPtr p1 \<Rightarrow>
          (case v2 of
             VPtr p2 \<Rightarrow>
               (case (p1, p2) of
                  (None, None) \<Rightarrow> Done True
                | (Some a, Some b) \<Rightarrow>
                    if a = b then Done True
                    else if a < length h \<and> b < length h then valueEqual skip n h (h ! a) (h ! b)
                    else Panic
                | _ \<Rightarrow> Done False)
           | _ \<Rightarrow> Done False)
      | VStruct fs \<Rightarrow>
          (case v2 of
             VStruct gs \<Rightarrow>
               all2_run
                 (\<lambda>(name1, exported1, x) (name2, exported2, y).
                    if name1 \<noteq> name2 \<or> exported1 \<noteq> exported2 then Done False
                    else if skip \<and> \<not> exported1 then Done True
                    else valueEqual skip n h x y)
                 fs gs
           | _ \<Rightarrow> Done False)
      | VMap m1 \<Rightarrow>
          (case v2 of
             VMap m2 \<Rightarrow>
               (case (m1, m2) of
                  (None, None) \<Rightarrow> Done True
                | (Some kvs, Some kws) \<Rightarrow>
                    if MapLen kvs \<noteq> MapLen kws then Done False
                    else all2_run
                           (\<lambda>key _. case (map_of kvs key, map_of kws key) of
                                        (Some x, Some y) \<Rightarrow> valueEqual skip n h x y
                                      | _ \<Rightarrow> Done False)
                           (MapKeys kvs) (MapKeys kvs)
                | _ \<Rightarrow> Done False)
           | _ \<Rightarrow> Done False))"

definition DeepEqual :: "nat \<Rightarrow> heap \<Rightarrow> gval \<Rightarrow> gval \<Rightarrow> bool run" where
  "DeepEqual = valueEqual False"

definition exportedEqual :: "nat \<Rightarrow> heap \<Rightarrow> gval \<Rightarrow> gval \<Rightarrow> bool run" where
  "exportedEqual = valueEqual True"

text \<open>
  A value graph is acyclic when following struct fields, array and slice elements, map
  keys and values, interface contents and pointers from the value always ends: the
  predicate is the well-founded part of the heap below the value. A pointer outside the
  heap does not occur in a Go program and is excluded as well.
\<close>

inductive acyclicVal :: "heap \<Rightarrow> gval \<Rightarrow> bool" for h :: heap where
  acy_scalar: "acyclicVal h (VScalar s)"
| acy_array: "(\<And>x. x \<in> set xs \<Longrightarrow> acyclicVal h x) \<Longrightarrow> acyclicVal h (VArray xs)"
| acy_nil: "acyclicVal h (VPtr None)"
| acy_ptr: "a < length h \<Longrightarrow> acyclicVal h (h ! a) \<Longrightarrow> acyclicVal h (VPtr (Some a))"
| acy_inil: "acyclicVal h (VIface None)"
| acy_iface: "acyclicVal h v \<Longrightarrow> acyclicVal h (VIface (Some (t, v)))"
| acy_struct: "(\<And>name e v. (name, e, v) \<in> set fs \<Longrightarrow> acyclicVal h v) \<Longrightarrow> acyclicVal h (VStruct fs)"
| acy_snil: "acyclicVal h (VSlice None)"
| acy_slice: "(\<And>x. x \<in> set xs \<Longrightarrow> acyclicVal h x) \<Longrightarrow> acyclicVal h (VSlice (Some (xs, c)))"
| acy_mnil: "acyclicVal h (VMap None)"
| acy_map: "(\<And>k v. (k, v) \<in> set kvs \<Longrightarrow> acyclicVal h k \<and> acyclicVal h v) \<Longrightarrow> acyclicVal h (VMap (Some kvs))"


section \<open>The cache, its registry and its collaborators\<close>

text \<open>
  Errors are Go \<open>error\<close> values: those of the database client, and the four the cache
  builds with \<open>fmt.Errorf\<close>. Lines printed with \<open>fmt.Printf\<close> are kept in the order
  they are written, and so are the update calls sent to the database.
\<close>

datatype dberr = RecordNotFound | DBFailure string

datatype 'k error =
    FailedToLoad dberr
  | NoCopyFound 'k
  | InvalidValueType 'k
  | FailedToUpdate dberr

datatype 'k logline =
    EvictSaveFailed "'k error"
  | EvictedFromCache 'k
  | PurgeSaveFailed "'k error"
  | PurgedFromCache 'k
  | SavedChanges 'k
  | NewCacheAdded 'k

text \<open>
  The cache core stores \<open>interface{}\<close> values. The write-back path only asks whether a
  stored value is a \<open>*T\<close> (possibly nil) or something else, which is all that \<open>dyn\<close>
  records.
\<close>

datatype dyn = PtrT "addr option" | OtherV

text \<open>
  The database client (gorm) is not part of the repository. Its two calls are parameters
  of the model: \<open>First\<close> is \<open>db.First(&entity, key)\<close>, which fails or yields the loaded
  entity (and the heap, in which it may have allocated), and \<open>Updates\<close> is
  \<open>db.Model(&oldCopy).Updates(newVal)\<close>, which fails or yields the new database.
\<close>

record ('k, 'd) gorm =
  First :: "'d \<Rightarrow> 'k \<Rightarrow> heap \<Rightarrow> dberr + (gval \<times> heap)"
  Updates :: "'d \<Rightarrow> gval \<Rightarrow> gval \<Rightarrow> heap \<Rightarrow> dberr + 'd"

text \<open>
  \<open>CacheDB\<close> has the three fields of the Go struct: \<open>db\<close>, \<open>Cache\<close> and \<open>copies\<close>. The
  cache core is represented by its entries, most recently used first, and its
  capacity. The record also carries what the Go program keeps outside the struct: the
  heap, standard output, and the update calls issued so far.
\<close>

record ('k, 'd) CacheDB =
  db :: 'd
  Cache :: "('k \<times> dyn) list"
  capacity :: nat
  copies :: "'k \<rightharpoonup> gval"
  memory :: heap
  stdout :: "'k logline list"
  updateCalls :: "(gval \<times> gval) list"

definition printf :: "'k logline \<Rightarrow> ('k, 'd) CacheDB \<Rightarrow> ('k, 'd) CacheDB" where
  "printf line c = c\<lparr>stdout := stdout c @ [line]\<rparr>"

text \<open>\<open>saveIfModified\<close>: compare the live value with the recorded copy and save a change.\<close>

definition saveIfModified ::
  "('k, 'd) gorm \<Rightarrow> nat \<Rightarrow> ('k, 'd) CacheDB \<Rightarrow> 'k \<Rightarrow> dyn \<Rightarrow> ('k error option \<times> ('k, 'd) CacheDB) run" where
  "saveIfModified G n c key newValue =
     (case copies c key of
        None \<Rightarrow> Done (Some (NoCopyFound key), c)
      | Some oldCopy \<Rightarrow>
          (case newValue of
             OtherV \<Rightarrow> Done (Some (InvalidValueType key), c)
           | PtrT None \<Rightarrow> Panic
           | PtrT (Some a) \<Rightarrow>
               if a < length (memory c)
               then bind_run (DeepEqual n (memory c) oldCopy (memory c ! a)) (\<lambda>equal.
                      if \<not> equal
                      then (let c1 = c\<lparr>updateCalls := updateCalls c @ [(oldCopy, memory c ! a)]\<rparr>
                            in case Updates G (db c) oldCopy (memory c ! a) (memory c) of
                                 Inl err \<Rightarrow> Done (Some (FailedToUpdate err), c1)
                               | Inr db' \<Rightarrow> Done (None, printf (SavedChanges key) (c1\<lparr>db := db'\<rparr>)))
                      else Done (None, c))
               else Panic))"

text \<open>\<open>evictToDB\<close> and \<open>purgeToDB\<close>: the callbacks the cache core runs before an entry leaves.\<close>

definition evictToDB ::
  "('k, 'd) gorm \<Rightarrow> nat \<Rightarrow> ('k, 'd) CacheDB \<Rightarrow> 'k \<Rightarrow> dyn \<Rightarrow> ('k, 'd) CacheDB run" where
  "evictToDB G n c key val =
     bind_run (saveIfModified G n c key val) (\<lambda>(err, c1).
       let c2 = (case err of Some e \<Rightarrow> printf (EvictSaveFailed e) c1 | None \<Rightarrow> c1);
           c3 = c2\<lparr>copies := (copies c2)(key := None)\<rparr>
       in Done (printf (EvictedFromCache key) c3))"

definition purgeToDB ::
  "('k, 'd) gorm \<Rightarrow> nat \<Rightarrow> ('k, 'd) CacheDB \<Rightarrow> 'k \<Rightarrow> dyn \<Rightarrow> ('k, 'd) CacheDB run" where
  "purgeToDB G n c key val =
     bind_run (saveIfModified G n c key val) (\<lambda>(err, c1).
       let c2 = (case err of Some e \<Rightarrow> printf (PurgeSaveFailed e) c1 | None \<Rightarrow> c1);
           c3 = c2\<lparr>copies := (copies c2)(key := None)\<rparr>
       in Done (printf (PurgedFromCache key) c3))"

text \<open>
  \<open>loadFromDB\<close>: the loader the cache core calls on a miss. \<open>entity\<close> is a local
  variable whose address is returned, so it is a cell of the heap.
\<close>

definition loadFromDB ::
  "('k, 'd) gorm \<Rightarrow> nat \<Rightarrow> ('k, 'd) CacheDB \<Rightarrow> 'k \<Rightarrow> (('k error + dyn) \<times> ('k, 'd) CacheDB) run" where
  "loadFromDB G n c key =
     (case First G (db c) key (memory c) of
        Inl err \<Rightarrow> Done (Inl (FailedToLoad err), c)
      | Inr (entity, h1) \<Rightarrow>
          (let h2 = h1 @ [entity] in
           bind_run (deepCopy n h2 entity) (\<lambda>(copy, h3).
             Done (Inr (PtrT (Some (length h1))),
                   c\<lparr>memory := h3, copies := (copies c)(key \<mapsto> copy)\<rparr>))))"

definition logCacheAdd :: "('k, 'd) CacheDB \<Rightarrow> 'k \<Rightarrow> dyn \<Rightarrow> ('k, 'd) CacheDB" where
  "logCacheAdd c key val = printf (NewCacheAdded key) c"

subsection \<open>The cache core\<close>

text \<open>
  Modelled from the spec: the capacity-bounded cache core is the third-party library
  gcache, which is not among the sources. Section 4.3 of the specification gives its
  contract, and the constructor selects the least-recently-used policy: \<open>get\<close> returns
  the stored value on a hit and on a miss calls the loader, whose successful result
  becomes the new entry; \<open>set\<close> stores or replaces an entry and then calls the added
  callback; the evicted callback is called with the key and the value immediately before
  an entry is removed under capacity or expiration pressure; the purge visitor is called
  for every entry immediately before a purge clears the cache. Time is not modelled:
  the expiry of an entry is the explicit operation \<open>cacheExpire\<close>.
\<close>

definition cacheRemove :: "'k \<Rightarrow> ('k \<times> dyn) list \<Rightarrow> ('k \<times> dyn) list" where
  "cacheRemove key items = filter (\<lambda>(k, v). k \<noteq> key) items"

definition cacheEvictOne ::
  "('k, 'd) gorm \<Rightarrow> nat \<Rightarrow> ('k, 'd) CacheDB \<Rightarrow> ('k, 'd) CacheDB run" where
  "cacheEvictOne G n c =
     (if Cache c = [] then Done c
      else (let (k, v) = last (Cache c) in
            bind_run (evictToDB G n c k v) (\<lambda>c1. Done (c1\<lparr>Cache := cacheRemove k (Cache c1)\<rparr>))))"

definition cacheSet ::
  "('k, 'd) gorm \<Rightarrow> nat \<Rightarrow> ('k, 'd) CacheDB \<Rightarrow> 'k \<Rightarrow> dyn \<Rightarrow> ('k error option \<times> ('k, 'd) CacheDB) run" where
  "cacheSet G n c key val =
     bind_run
       (if key \<in> fst ` set (Cache c) then Done c
        else if length (Cache c) \<ge> capacity c then cacheEvictOne G n c
        else Done c)
       (\<lambda>c1. let c2 = c1\<lparr>Cache := (key, val) # cacheRemove key (Cache c1)\<rparr>
              in Done (None, logCacheAdd c2 key val))"

definition cacheGet ::
  "('k, 'd) gorm \<Rightarrow> nat \<Rightarrow> ('k, 'd) CacheDB \<Rightarrow> 'k \<Rightarrow> (('k error + dyn) \<times> ('k, 'd) CacheDB) run" where
  "cacheGet G n c key =
     (case map_of (Cache c) key of
        Some val \<Rightarrow> Done (Inr val, c\<lparr>Cache := (key, val) # cacheRemove key (Cache c)\<rparr>)
      | None \<Rightarrow>
          bind_run (loadFromDB G n c key) (\<lambda>(r, c1).
            case r of
              Inl err \<Rightarrow> Done (Inl err, c1)
            | Inr val \<Rightarrow>
                bind_run (cacheSet G n c1 key val) (\<lambda>(err, c2).
                  case err of Some e \<Rightarrow> Done (Inl e, c2) | None \<Rightarrow> Done (Inr val, c2))))"

definition cacheExpire ::
  "('k, 'd) gorm \<Rightarrow> nat \<Rightarrow> ('k, 'd) CacheDB \<Rightarrow> 'k \<Rightarrow> ('k, 'd) CacheDB run" where
  "cacheExpire G n c key =
     (case map_of (Cache c) key of
        None \<Rightarrow> Done c
      | Some val \<Rightarrow>
          bind_run (evictToDB G n c key val) (\<lambda>c1. Done (c1\<lparr>Cache := cacheRemove key (Cache c1)\<rparr>)))"

fun purgeVisit ::
  "('k, 'd) gorm \<Rightarrow> nat \<Rightarrow> ('k \<times> dyn) list \<Rightarrow> ('k, 'd) CacheDB \<Rightarrow> ('k, 'd) CacheDB run" where
  "purgeVisit G n [] c = Done c"
| "purgeVisit G n ((k, v) # items) c = bind_run (purgeToDB G n c k v) (purgeVisit G n items)"

definition cachePurge ::
  "('k, 'd) gorm \<Rightarrow> nat \<Rightarrow> ('k, 'd) CacheDB \<Rightarrow> ('k, 'd) CacheDB run" where
  "cachePurge G n c = bind_run (purgeVisit G n (Cache c) c) (\<lambda>c1. Done (c1\<lparr>Cache := []\<rparr>))"

subsection \<open>The public operations\<close>

text \<open>
  \<open>NewWithCache\<close> builds the handle with an empty registry and an empty cache. The
  size is a natural number here; the library refuses to build a cache whose size is not
  positive, and no statement below depends on what the model does with size \<open>0\<close>. \<open>Get\<close>
  asserts the type of the cached value without a check, so a cached value that is not
  a \<open>*T\<close> makes it panic. \<open>Set\<close> takes \<open>value\<close> by value: the parameter is a fresh
  cell, whose address is what the cache stores.
\<close>

definition NewWithCache :: "'d \<Rightarrow> nat \<Rightarrow> heap \<Rightarrow> ('k, 'd) CacheDB" where
  "NewWithCache database sz h =
     \<lparr>db = database, Cache = [], capacity = sz, copies = Map.empty,
      memory = h, stdout = [], updateCalls = []\<rparr>"

definition Get ::
  "('k, 'd) gorm \<Rightarrow> nat \<Rightarrow> ('k, 'd) CacheDB \<Rightarrow> 'k \<Rightarrow> (('k error + addr option) \<times> ('k, 'd) CacheDB) run" where
  "Get G n c key =
     bind_run (cacheGet G n c key) (\<lambda>(r, c1).
       case r of
         Inl err \<Rightarrow> Done (Inl err, c1)
       | Inr (PtrT p) \<Rightarrow> Done (Inr p, c1)
       | Inr OtherV \<Rightarrow> Panic)"

definition Set ::
  "('k, 'd) gorm \<Rightarrow> nat \<Rightarrow> ('k, 'd) CacheDB \<Rightarrow> 'k \<Rightarrow> gval \<Rightarrow> ('k error option \<times> ('k, 'd) CacheDB) run" where
  "Set G n c key val =
     (let a = length (memory c); h1 = memory c @ [val] in
      bind_run (deepCopy n h1 val) (\<lambda>(copy, h2).
        cacheSet G n (c\<lparr>memory := h2, copies := (copies c)(key \<mapsto> copy)\<rparr>) key (PtrT (Some a))))"

text \<open>A caller writes through the reference it got from \<open>Get\<close>: \<open>*p = v\<close>.\<close>

definition assignThrough :: "('k, 'd) CacheDB \<Rightarrow> addr \<Rightarrow> gval \<Rightarrow> ('k, 'd) CacheDB run" where
  "assignThrough c a v =
     (if a < length (memory c) then Done (c\<lparr>memory := (memory c)[a := v]\<rparr>) else Panic)"


section \<open>Notions used to state the properties\<close>

text \<open>
  The evict and the purge callbacks print different lines; \<open>asPurge\<close> turns a line of
  the first into the corresponding line of the second, and \<open>relabelOutput k\<close> does so
  for everything printed after the first \<open>k\<close> lines.
\<close>

definition asPurge :: "'k logline \<Rightarrow> 'k logline" where
  "asPurge l =
     (case l of
        EvictSaveFailed e \<Rightarrow> PurgeSaveFailed e
      | EvictedFromCache k \<Rightarrow> PurgedFromCache k
      | _ \<Rightarrow> l)"

definition relabelOutput :: "nat \<Rightarrow> ('k, 'd) CacheDB \<Rightarrow> ('k, 'd) CacheDB" where
  "relabelOutput k c = c\<lparr>stdout := take k (stdout c) @ map asPurge (drop k (stdout c))\<rparr>"

definition map_run :: "('a \<Rightarrow> 'b) \<Rightarrow> 'a run \<Rightarrow> 'b run" where
  "map_run f m = bind_run m (\<lambda>x. Done (f x))"

text \<open>
  Databases for the examples: one that holds a single row, returns it for every key and
  replaces it on an update, and one whose updates always fail.
\<close>

definition rowStore :: "(int, gval) gorm" where
  "rowStore = \<lparr>First = (\<lambda>d key h. Inr (d, h)), Updates = (\<lambda>d old new h. Inr new)\<rparr>"


definition user :: "int \<Rightarrow> string \<Rightarrow> int \<Rightarrow> gval" where
  "user ident name age =
     VStruct [(''ID'', True, VScalar (SInt ident)),
              (''Name'', True, VScalar (SString name)),
              (''Age'', True, VScalar (SInt age))]"

text \<open>
  The state of scenario A of the specification after \<open>get(1)\<close> and the caller's
  assignment to \<open>Name\<close>: the row and the recorded copy still say \<open>Zhang\<close>, the live entry
  says \<open>Li\<close>.
\<close>

definition dirtyState :: "(int, gval) CacheDB" where
  "dirtyState =
     \<lparr>db = user 1 ''Zhang'' 19, Cache = [(1, PtrT (Some 0))], capacity = 10,
      copies = [1 \<mapsto> user 1 ''Zhang'' 19], memory = [user 1 ''Li'' 19],
      stdout = [NewCacheAdded 1], updateCalls = []\<rparr>"

text \<open>
  An entity type with a field that is not exported, and the state right after
  \<open>Set(1, account 1 "x")\<close> on a fresh cache: the recorded copy has the zero value in
  the field that is not exported, the live entry has not been touched.
\<close>

definition account :: "int \<Rightarrow> string \<Rightarrow> gval" where
  "account ident secret =
     VStruct [(''ID'', True, VScalar (SInt ident)), (''token'', False, VScalar (SString secret))]"

definition hiddenState :: "(int, gval) CacheDB" where
  "hiddenState =
     \<lparr>db = account 1 ''x'', Cache = [(1, PtrT (Some 0))], capacity = 10,
      copies = [1 \<mapsto> account 1 []], memory = [account 1 ''x''],
      stdout = [NewCacheAdded 1], updateCalls = []\<rparr>"


definition profileHeap :: heap where
  "profileHeap = [user 1 ''Zhang'' 19]"

definition profile :: gval where
  "profile =
     VStruct [(''Owner'', True, VPtr (Some 0)),
              (''Extra'', True, VIface (Some (''string'', VScalar (SString ''vip'')))),
              (''Tags'', True, VSlice (Some ([VScalar (SString ''a''), VScalar (SString ''b'')], 4))),
              (''Scores'', True, VMap (Some [(VScalar (SString ''go''), VScalar (SInt 7))])),
              (''seen'', False, VScalar (SInt 3))]"

text \<open>
  The state right after \<open>Set(1, account 1 "")\<close> on a fresh cache: baseline and live
  entry agree in every field.
\<close>

definition cleanState :: "(int, gval) CacheDB" where
  "cleanState =
     \<lparr>db = account 1 [], Cache = [(1, PtrT (Some 0))], capacity = 10,
      copies = [1 \<mapsto> account 1 []], memory = [account 1 []],
      stdout = [NewCacheAdded 1], updateCalls = []\<rparr>"

text \<open>
  The operations a caller can perform, with the caller's assignment through a reference
  among them, and the states a cache reaches by performing them one after the other. An
  operation that panics or does not return leads nowhere. \<open>synced\<close> says that registry
  and cache hold the same keys, each of them once.
\<close>

datatype 'k operation = OpGet 'k | OpSet 'k gval | OpExpire 'k | OpPurge | OpAssign addr gval

definition perform ::
  "('k, 'd) gorm \<Rightarrow> nat \<Rightarrow> ('k, 'd) CacheDB \<Rightarrow> 'k operation \<Rightarrow> ('k, 'd) CacheDB run" where
  "perform G n c op =
     (case op of
        OpGet key \<Rightarrow> map_run snd (Get G n c key)
      | OpSet key v \<Rightarrow> map_run snd (Set G n c key v)
      | OpExpire key \<Rightarrow> cacheExpire G n c key
      | OpPurge \<Rightarrow> cachePurge G n c
      | OpAssign a v \<Rightarrow> assignThrough c a v)"

inductive reachable :: "('k, 'd) gorm \<Rightarrow> ('k, 'd) CacheDB \<Rightarrow> ('k, 'd) CacheDB \<Rightarrow> bool"
  for G :: "('k, 'd) gorm" and c0 :: "('k, 'd) CacheDB" where
  start: "reachable G c0 c0"
| step: "reachable G c0 c \<Longrightarrow> perform G n c op = Done c' \<Longrightarrow> reachable G c0 c'"

definition synced :: "('k, 'd) CacheDB \<Rightarrow> bool" where
  "synced c \<longleftrightarrow> dom (copies c) = fst ` set (Cache c) \<and> distinct (map fst (Cache c))"

section \<open>Basic facts\<close>

lemma bind_run_simps [simp]:
  "bind_run OutOfFuel f = OutOfFuel" "bind_run Panic f = Panic" "bind_run (Done x) f = f x"
  by (simp_all add: bind_run_def)

lemma bind_run_Done_iff: "bind_run m f = Done y \<longleftrightarrow> (\<exists>x. m = Done x \<and> f x = Done y)"
  by (cases m) simp_all

lemma map_run_simps [simp]:
  "map_run f OutOfFuel = OutOfFuel" "map_run f Panic = Panic" "map_run f (Done x) = Done (f x)"
  by (simp_all add: map_run_def)


subsection \<open>Comparison\<close>




subsection \<open>The write-back path\<close>

lemma saveIfModified_cases:
  assumes "saveIfModified G n c key val = Done (err, c1)"
  shows "copies c1 = copies c \<and> Cache c1 = Cache c \<and> memory c1 = memory c \<and> capacity c1 = capacity c
     \<and> ((stdout c1 = stdout c \<and> updateCalls c1 = updateCalls c \<and> db c1 = db c) \<or>
        (\<exists>b a. err = None \<and> stdout c1 = stdout c @ [SavedChanges key] \<and> updateCalls c1 = updateCalls c @ [(b, a)]) \<or>
        (\<exists>b a d. err = Some (FailedToUpdate d) \<and> stdout c1 = stdout c \<and> updateCalls c1 = updateCalls c @ [(b, a)] \<and> db c1 = db c))"
  using assms
  by (auto simp: saveIfModified_def printf_def Let_def bind_run_Done_iff
      split: option.splits dyn.splits if_splits sum.splits)

lemma purge_relabels_evict:
  "purgeToDB G n c key val = map_run (relabelOutput (length (stdout c))) (evictToDB G n c key val)"
proof (cases "saveIfModified G n c key val")
  case (Done r)
  obtain err c1 where r: "r = (err, c1)" by (cases r)
  from saveIfModified_cases[OF Done[unfolded r]]
  obtain ls where ls: "stdout c1 = stdout c @ ls" "map asPurge ls = ls"
    by (auto simp: asPurge_def)
  show ?thesis
    using Done r ls
    by (cases err) (simp_all add: purgeToDB_def evictToDB_def relabelOutput_def printf_def asPurge_def)
qed (simp_all add: purgeToDB_def evictToDB_def)

lemma evictToDB_forgets:
  "evictToDB G n c key val = Done c' \<Longrightarrow> copies c' = (copies c)(key := None)"
  by (auto simp: evictToDB_def bind_run_Done_iff printf_def Let_def
      dest!: saveIfModified_cases split: option.splits)

lemma DeepEqual_dirtyState:
  "DeepEqual 3 [user 1 ''Li'' 19] (user 1 ''Zhang'' 19) (user 1 ''Li'' 19) = Done False"
  by (simp add: DeepEqual_def user_def eval_nat_numeral)

lemma evict_dirtyState:
  "evictToDB rowStore 3 dirtyState 1 (PtrT (Some 0)) =
     Done (dirtyState\<lparr>db := user 1 ''Li'' 19, copies := Map.empty,
        stdout := [NewCacheAdded 1, SavedChanges 1, EvictedFromCache 1],
        updateCalls := [(user 1 ''Zhang'' 19, user 1 ''Li'' 19)]\<rparr>)"
  unfolding evictToDB_def saveIfModified_def
  by (simp add: dirtyState_def DeepEqual_dirtyState rowStore_def printf_def)

lemma cacheRemove_absent [simp]: "key \<notin> fst ` set (cacheRemove key items)"
  by (auto simp: cacheRemove_def)

lemma purgeToDB_forgets:
  "purgeToDB G n c key val = Done c' \<Longrightarrow> copies c' = (copies c)(key := None)"
  by (auto simp: purgeToDB_def bind_run_Done_iff printf_def Let_def
      dest!: saveIfModified_cases split: option.splits)




lemma DeepEqual_hiddenState:
  "DeepEqual 3 [account 1 ''x''] (account 1 []) (account 1 ''x'') = Done False"
  by (simp add: DeepEqual_def account_def eval_nat_numeral)


lemma evict_hiddenState:
  "evictToDB rowStore 3 hiddenState 1 (PtrT (Some 0)) =
     Done (hiddenState\<lparr>copies := Map.empty,
        stdout := [NewCacheAdded 1, SavedChanges 1, EvictedFromCache 1],
        updateCalls := [(account 1 [], account 1 ''x'')]\<rparr>)"
  unfolding evictToDB_def saveIfModified_def
  by (simp add: hiddenState_def DeepEqual_hiddenState rowStore_def printf_def)



section \<open>Eviction and purge run the same write-back\<close>

text \<open>
  Claim C10. For every key and value, the purge visitor is the evict callback with its
  two log lines renamed: on the same state both return, panic or fail to return
  together, and when they return they leave the same registry, database, update calls,
  heap and cache entries; the registry has lost the key, and nothing else, in both.
\<close>

theorem evict_purge_same_effect:
  "purgeToDB G n c key val = map_run (relabelOutput (length (stdout c))) (evictToDB G n c key val)
   \<and> (\<forall>ce. evictToDB G n c key val = Done ce \<longrightarrow>
         (\<exists>cp. purgeToDB G n c key val = Done cp
            \<and> copies ce = (copies c)(key := None) \<and> copies cp = (copies c)(key := None)
            \<and> db cp = db ce \<and> updateCalls cp = updateCalls ce
            \<and> memory cp = memory ce \<and> Cache cp = Cache ce))"
  by (auto simp: purge_relabels_evict relabelOutput_def dest: evictToDB_forgets)

theorem evict_purge_same_effect_witness:
  "\<exists>ce cp. evictToDB rowStore 3 dirtyState 1 (PtrT (Some 0)) = Done ce
     \<and> purgeToDB rowStore 3 dirtyState 1 (PtrT (Some 0)) = Done cp
     \<and> copies ce 1 = None \<and> copies cp 1 = None
     \<and> db cp = db ce \<and> updateCalls cp = [(user 1 ''Zhang'' 19, user 1 ''Li'' 19)]
     \<and> stdout ce = [NewCacheAdded 1, SavedChanges 1, EvictedFromCache 1]
     \<and> stdout cp = [NewCacheAdded 1, SavedChanges 1, PurgedFromCache 1]"
proof -
  have p: "purgeToDB rowStore 3 dirtyState 1 (PtrT (Some 0))
      = map_run (relabelOutput (length (stdout dirtyState))) (evictToDB rowStore 3 dirtyState 1 (PtrT (Some 0)))"
    using evict_purge_same_effect[of rowStore 3 dirtyState 1 "PtrT (Some 0)"] by blast
  show ?thesis
    unfolding p evict_dirtyState
    by (simp add: relabelOutput_def asPurge_def dirtyState_def)
qed

section \<open>Errors on the write-back path\<close>




section \<open>Facts about the deep copy\<close>

lemma mapM_heap_Cons_Done:
  "mapM_heap f (x # xs) h = Done (r, h') \<longleftrightarrow>
     (\<exists>y h1 ys. f x h = Done (y, h1) \<and> mapM_heap f xs h1 = Done (ys, h') \<and> r = y # ys)"
  by (auto simp: bind_run_Done_iff)

lemma mapM_heap_ConsE:
  assumes "mapM_heap f (x # xs) h = Done (r, h')"
  obtains y h1 ys where "f x h = Done (y, h1)" "mapM_heap f xs h1 = Done (ys, h')" "r = y # ys"
  using assms unfolding mapM_heap_Cons_Done by blast

lemma mapM_heap_length:
  "mapM_heap f xs h = Done (ys, h') \<Longrightarrow> length ys = length xs"
proof (induction xs arbitrary: h ys)
  case (Cons x xs)
  from Cons.prems obtain y h1 ys' where
    "mapM_heap f xs h1 = Done (ys', h')" "ys = y # ys'"
    by (rule mapM_heap_ConsE)
  with Cons.IH show ?case by simp
qed simp

lemma mapM_heap_prefix:
  assumes "\<And>x h y h'. x \<in> set xs \<Longrightarrow> f x h = Done (y, h') \<Longrightarrow> prefix h h'"
    and "mapM_heap f xs h = Done (ys, h')"
  shows "prefix h h'"
  using assms
proof (induction xs arbitrary: h ys)
  case (Cons x xs)
  from Cons.prems(2) obtain y h1 ys' where
    s: "f x h = Done (y, h1)" "mapM_heap f xs h1 = Done (ys', h')"
    by (rule mapM_heap_ConsE)
  have "prefix h h1" using Cons.prems(1)[of x h y h1] s(1) by simp
  moreover have "prefix h1 h'" using Cons.IH[OF _ s(2)] Cons.prems(1) by auto
  ultimately show ?case by (rule prefix_order.trans)
qed simp

lemma mapM_heap_transfer:
  assumes "mapM_heap f xs h = Done r"
    and "\<And>x h r. x \<in> set xs \<Longrightarrow> f x h = Done r \<Longrightarrow> g x h = Done r"
  shows "mapM_heap g xs h = Done r"
  using assms
proof (induction xs arbitrary: h r)
  case (Cons x xs)
  obtain ys h' where r: "r = (ys, h')" by (cases r)
  from Cons.prems(1)[unfolded r] obtain y h1 ys' where
    s: "f x h = Done (y, h1)" "mapM_heap f xs h1 = Done (ys', h')" "ys = y # ys'"
    by (rule mapM_heap_ConsE)
  have "g x h = Done (y, h1)" using Cons.prems(2)[of x h "(y, h1)"] s(1) by simp
  moreover have "mapM_heap g xs h1 = Done (ys', h')"
    using Cons.IH[OF s(2)] Cons.prems(2) by auto
  ultimately show ?case using r s(3) by simp
qed simp

lemma copyRecursive_struct:
  "copyRecursive (Suc n) h (VStruct fs) cpy =
     (case cpy of
        VStruct cfs \<Rightarrow>
          if length cfs = length fs
          then bind_run (mapM_heap (copyField n) (zip fs cfs) h) (\<lambda>(cfs', h1). Done (VStruct cfs', h1))
          else Panic
      | _ \<Rightarrow> Panic)"
  by (cases cpy) (simp_all add: copyField_def)

lemma copyRecursive_map:
  "copyRecursive (Suc n) h (VMap (Some kvs)) cpy =
     bind_run (mapM_heap (copyEntry n kvs) (MapKeys kvs) h)
       (\<lambda>(kcs, h1). Done (VMap (Some (foldl (\<lambda>m (key, c). AList.update key c m) [] kcs)), h1))"
  by (simp add: copyEntry_def)

declare copyRecursive.simps(6,10) [simp del]
declare copyRecursive_struct [simp] copyRecursive_map [simp]

lemma copyField_Done:
  "copyField n ((name, e, v), (cname, ce, c)) h = Done (y, h') \<longleftrightarrow>
     (if e then \<exists>c'. copyRecursive n h v c = Done (c', h') \<and> y = (cname, ce, c')
      else y = (cname, ce, c) \<and> h' = h)"
  by (auto simp: copyField_def bind_run_Done_iff)

lemma copyEntry_Done:
  "copyEntry n kvs key h = Done (y, h') \<longleftrightarrow>
     (\<exists>v c. map_of kvs key = Some v \<and> copyRecursive n h v (zero_of v) = Done (c, h') \<and> y = (key, c))"
  by (auto simp: copyEntry_def bind_run_Done_iff split: option.splits)

lemma copyRecursive_Suc_cases:
  assumes "copyRecursive (Suc n) h v z = Done (c, h')"
  shows "(\<exists>s. v = VScalar s \<and> c = v \<and> h' = h)
       \<or> (\<exists>xs. v = VArray xs \<and> c = v \<and> h' = h)
       \<or> (v = VPtr None \<and> c = z \<and> h' = h)
       \<or> (\<exists>a c1 h1. v = VPtr (Some a) \<and> a < length h
             \<and> copyRecursive n h (h ! a) (zero_of (h ! a)) = Done (c1, h1)
             \<and> c = VPtr (Some (length h1)) \<and> h' = h1 @ [c1])
       \<or> (v = VIface None \<and> c = z \<and> h' = h)
       \<or> (\<exists>t x c1. v = VIface (Some (t, x)) \<and> copyRecursive n h x (zero_of x) = Done (c1, h')
             \<and> c = VIface (Some (t, c1)))
       \<or> (\<exists>fs cfs cfs'. v = VStruct fs \<and> z = VStruct cfs \<and> length cfs = length fs
             \<and> mapM_heap (copyField n) (zip fs cfs) h = Done (cfs', h') \<and> c = VStruct cfs')
       \<or> (v = VSlice None \<and> c = z \<and> h' = h)
       \<or> (\<exists>xs cap ys. v = VSlice (Some (xs, cap))
             \<and> mapM_heap (\<lambda>x h'. copyRecursive n h' x (zero_of x)) xs h = Done (ys, h')
             \<and> c = VSlice (Some (ys, cap)))
       \<or> (v = VMap None \<and> c = z \<and> h' = h)
       \<or> (\<exists>kvs kcs. v = VMap (Some kvs)
             \<and> mapM_heap (copyEntry n kvs) (MapKeys kvs) h = Done (kcs, h')
             \<and> c = VMap (Some (foldl (\<lambda>m (key, c). AList.update key c m) [] kcs)))"
proof (cases v)
  case (VScalar s)
  with assms show ?thesis by auto
next
  case (VArray xs)
  with assms show ?thesis by auto
next
  case (VPtr p)
  with assms show ?thesis
    by (cases p) (auto simp: bind_run_Done_iff split: if_splits)
next
  case (VIface i)
  with assms show ?thesis
    by (cases i) (auto simp: bind_run_Done_iff)
next
  case (VStruct fs)
  with assms show ?thesis
    by (auto simp: bind_run_Done_iff split: gval.splits if_splits)
next
  case (VSlice sl)
  with assms show ?thesis
    by (cases sl) (auto simp: bind_run_Done_iff)
next
  case (VMap m)
  show ?thesis
  proof (cases m)
    case None
    with VMap assms show ?thesis by simp
  next
    case (Some kvs)
    with VMap assms show ?thesis
      by (auto simp: bind_run_Done_iff)
  qed
qed


lemma copyRecursive_fuel_Suc:
  "copyRecursive n h v z = Done r \<Longrightarrow> copyRecursive (Suc n) h v z = Done r"
proof (induction n arbitrary: h v z r)
  case 0
  then show ?case by simp
next
  case (Suc n)
  note IH = Suc.IH
  obtain c h' where r: "r = (c, h')" by (cases r)
  have field: "\<And>x h r. copyField n x h = Done r \<Longrightarrow> copyField (Suc n) x h = Done r"
    by (auto simp: copyField_def bind_run_Done_iff split: if_splits
        dest!: IH simp del: copyRecursive.simps)
  have entry: "\<And>kvs x h r. copyEntry n kvs x h = Done r \<Longrightarrow> copyEntry (Suc n) kvs x h = Done r"
    by (auto simp: copyEntry_def bind_run_Done_iff split: option.splits
        dest!: IH simp del: copyRecursive.simps)
  from copyRecursive_Suc_cases[OF Suc.prems[unfolded r]] show ?case
  proof (elim disjE exE conjE)
    fix a c1 h1
    assume "v = VPtr (Some a)" "a < length h"
      "copyRecursive n h (h ! a) (zero_of (h ! a)) = Done (c1, h1)"
      "c = VPtr (Some (length h1))" "h' = h1 @ [c1]"
    then show ?thesis using r IH[of h "h ! a" "zero_of (h ! a)"] by simp
  next
    fix t x c1
    assume "v = VIface (Some (t, x))" "copyRecursive n h x (zero_of x) = Done (c1, h')"
      "c = VIface (Some (t, c1))"
    then show ?thesis using r IH[of h x "zero_of x"] by simp
  next
    fix fs cfs cfs'
    assume a: "v = VStruct fs" "z = VStruct cfs" "length cfs = length fs"
      "mapM_heap (copyField n) (zip fs cfs) h = Done (cfs', h')" "c = VStruct cfs'"
    have "mapM_heap (copyField (Suc n)) (zip fs cfs) h = Done (cfs', h')"
      by (rule mapM_heap_transfer[OF a(4)]) (rule field)
    then show ?thesis using a r by simp
  next
    fix xs cap ys
    assume a: "v = VSlice (Some (xs, cap))"
      "mapM_heap (\<lambda>x h'. copyRecursive n h' x (zero_of x)) xs h = Done (ys, h')"
      "c = VSlice (Some (ys, cap))"
    have "mapM_heap (\<lambda>x h'. copyRecursive (Suc n) h' x (zero_of x)) xs h = Done (ys, h')"
      by (rule mapM_heap_transfer[OF a(2)]) (rule IH)
    then show ?thesis using a r by simp
  next
    fix kvs kcs
    assume a: "v = VMap (Some kvs)"
      "mapM_heap (copyEntry n kvs) (MapKeys kvs) h = Done (kcs, h')"
      "c = VMap (Some (foldl (\<lambda>m (key, c). AList.update key c m) [] kcs))"
    have "mapM_heap (copyEntry (Suc n) kvs) (MapKeys kvs) h = Done (kcs, h')"
      by (rule mapM_heap_transfer[OF a(2)]) (rule entry)
    then show ?thesis using a r by simp
  qed (use r in simp_all)
qed

lemma copyRecursive_fuel_mono:
  "copyRecursive n h v z = Done r \<Longrightarrow> n \<le> m \<Longrightarrow> copyRecursive m h v z = Done r"
  by (induction m) (auto simp: le_Suc_eq dest: copyRecursive_fuel_Suc simp del: copyRecursive.simps)

lemma copyRecursive_prefix:
  "copyRecursive n h v z = Done (c, h') \<Longrightarrow> prefix h h'"
proof (induction n arbitrary: h v z c h')
  case 0
  then show ?case by simp
next
  case (Suc n)
  note IH = Suc.IH
  have field: "\<And>x h y h'. copyField n x h = Done (y, h') \<Longrightarrow> prefix h h'"
    by (auto simp: copyField_def bind_run_Done_iff split: if_splits dest: IH)
  have entry: "\<And>kvs x h y h'. copyEntry n kvs x h = Done (y, h') \<Longrightarrow> prefix h h'"
    by (auto simp: copyEntry_def bind_run_Done_iff split: option.splits dest: IH)
  from copyRecursive_Suc_cases[OF Suc.prems] show ?case
  proof (elim disjE exE conjE)
    fix a c1 h1
    assume "copyRecursive n h (h ! a) (zero_of (h ! a)) = Done (c1, h1)" "h' = h1 @ [c1]"
    then show ?thesis using IH[of h "h ! a" "zero_of (h ! a)" c1 h1]
      by (auto intro: prefix_order.trans)
  next
    fix t x c1
    assume "copyRecursive n h x (zero_of x) = Done (c1, h')"
    then show ?thesis by (rule IH)
  next
    fix fs cfs cfs'
    assume "mapM_heap (copyField n) (zip fs cfs) h = Done (cfs', h')"
    then show ?thesis by (rule mapM_heap_prefix[rotated]) (rule field)
  next
    fix xs cap ys
    assume "mapM_heap (\<lambda>x h'. copyRecursive n h' x (zero_of x)) xs h = Done (ys, h')"
    then show ?thesis by (rule mapM_heap_prefix[rotated]) (rule IH)
  next
    fix kvs kcs
    assume "mapM_heap (copyEntry n kvs) (MapKeys kvs) h = Done (kcs, h')"
    then show ?thesis by (rule mapM_heap_prefix[rotated]) (rule entry)
  qed simp_all
qed

lemma copyField_fuel_Suc:
  assumes "copyField n x h = Done r"
  shows "copyField (Suc n) x h = Done r"
proof -
  obtain name e v cname ce c where x: "x = ((name, e, v), (cname, ce, c))"
    by (cases x) auto
  obtain y h' where r: "r = (y, h')" by (cases r)
  from assms show ?thesis
    unfolding x r copyField_Done
    by (cases e) (auto intro: copyRecursive_fuel_Suc simp del: copyRecursive.simps)
qed

lemma copyEntry_fuel_Suc:
  assumes "copyEntry n kvs x h = Done r"
  shows "copyEntry (Suc n) kvs x h = Done r"
proof -
  obtain y h' where r: "r = (y, h')" by (cases r)
  from assms show ?thesis
    unfolding r copyEntry_Done
    by (auto intro: copyRecursive_fuel_Suc simp del: copyRecursive.simps)
qed

lemma copyField_prefix: "copyField n x h = Done (y, h') \<Longrightarrow> prefix h h'"
  by (auto simp: copyField_def bind_run_Done_iff split: if_splits prod.splits
      dest: copyRecursive_prefix)

lemma copyEntry_prefix: "copyEntry n kvs x h = Done (y, h') \<Longrightarrow> prefix h h'"
  by (auto simp: copyEntry_def bind_run_Done_iff split: option.splits dest: copyRecursive_prefix)

lemma prefix_nth: "prefix h h' \<Longrightarrow> a < length h \<Longrightarrow> h' ! a = h ! a"
  by (auto simp: prefix_def nth_append)

lemma acyclicVal_prefix:
  "acyclicVal h v \<Longrightarrow> prefix h h' \<Longrightarrow> acyclicVal h' v"
proof (induction rule: acyclicVal.induct)
  case (acy_ptr a)
  have "a < length h'" using acy_ptr.hyps(1) acy_ptr.prems by (auto dest: prefix_length_le)
  moreover have "acyclicVal h' (h' ! a)"
    using acy_ptr by (simp add: prefix_nth)
  ultimately show ?case by (rule acyclicVal.acy_ptr)
qed (auto intro: acyclicVal.intros)

lemma fuel_le:
  assumes "\<And>n x h r. f n x h = Done r \<Longrightarrow> f (Suc n) x h = Done r"
    and "f n x h = Done r" "n \<le> m"
  shows "f m x h = Done r"
  using assms(3,2) by (induction rule: dec_induct) (auto dest: assms(1))

lemma mapM_heap_terminates:
  assumes mono: "\<And>n x h r. f n x h = Done r \<Longrightarrow> f (Suc n) x h = Done r"
    and pre: "\<And>n x h y h'. f n x h = Done (y, h') \<Longrightarrow> prefix h h'"
    and each: "\<And>x h'. x \<in> set xs \<Longrightarrow> prefix h0 h' \<Longrightarrow> \<exists>n r. f n x h' = Done r"
    and "prefix h0 h"
  shows "\<exists>n r. mapM_heap (f n) xs h = Done r"
  using each \<open>prefix h0 h\<close>
proof (induction xs arbitrary: h)
  case Nil
  show ?case by simp
next
  case (Cons x xs)
  from Cons.prems(1)[of x h] Cons.prems(2) obtain n1 y h1 where
    fx: "f n1 x h = Done (y, h1)" by auto
  have "prefix h0 h1" using pre[OF fx] Cons.prems(2) by (rule prefix_order.trans[rotated])
  from Cons.IH[OF _ this] Cons.prems(1) obtain n2 ys h2 where
    rest: "mapM_heap (f n2) xs h1 = Done (ys, h2)" by auto
  let ?n = "max n1 n2"
  have up: "\<And>k x h r. f k x h = Done r \<Longrightarrow> k \<le> ?n \<Longrightarrow> f ?n x h = Done r"
    by (rule fuel_le[where f = f, OF mono])
  have "f ?n x h = Done (y, h1)" using up[OF fx] by simp
  moreover have "mapM_heap (f ?n) xs h1 = Done (ys, h2)"
    using mapM_heap_transfer[OF rest, of "f ?n"] up[of n2] by simp
  ultimately have "mapM_heap (f ?n) (x # xs) h = Done (y # ys, h2)" by simp
  then show ?case by blast
qed

lemma zero_of_struct_zip:
  "p \<in> set (zip fs (map (map_prod id (map_prod id zero_of)) fs)) \<Longrightarrow>
     \<exists>name e v. (name, e, v) \<in> set fs \<and> p = ((name, e, v), (name, e, zero_of v))"
  by (induction fs) auto

lemma copyRecursive_terminates:
  "acyclicVal h v \<Longrightarrow> prefix h h' \<Longrightarrow> \<exists>n r. copyRecursive n h' v (zero_of v) = Done r"
proof (induction arbitrary: h' rule: acyclicVal.induct)
  case (acy_scalar s)
  have "copyRecursive (Suc 0) h' (VScalar s) (zero_of (VScalar s)) = Done (VScalar s, h')" by simp
  then show ?case by blast
next
  case (acy_array xs)
  have "copyRecursive (Suc 0) h' (VArray xs) (zero_of (VArray xs)) = Done (VArray xs, h')" by simp
  then show ?case by blast
next
  case acy_nil
  have "copyRecursive (Suc 0) h' (VPtr None) (zero_of (VPtr None)) = Done (VPtr None, h')" by simp
  then show ?case by blast
next
  case (acy_ptr a)
  from acy_ptr.IH[OF acy_ptr.prems] obtain n c h1 where
    "copyRecursive n h' (h ! a) (zero_of (h ! a)) = Done (c, h1)" by auto
  moreover have "a < length h'" using acy_ptr.hyps(1) acy_ptr.prems by (auto dest: prefix_length_le)
  moreover have "h' ! a = h ! a" using acy_ptr.hyps(1) acy_ptr.prems by (rule prefix_nth[rotated])
  ultimately have "copyRecursive (Suc n) h' (VPtr (Some a)) (zero_of (VPtr (Some a)))
      = Done (VPtr (Some (length h1)), h1 @ [c])" by simp
  then show ?case by blast
next
  case acy_inil
  have "copyRecursive (Suc 0) h' (VIface None) (zero_of (VIface None)) = Done (VIface None, h')" by simp
  then show ?case by blast
next
  case (acy_iface v t)
  from acy_iface.IH[OF acy_iface.prems] obtain n c h1 where
    "copyRecursive n h' v (zero_of v) = Done (c, h1)" by auto
  then have "copyRecursive (Suc n) h' (VIface (Some (t, v))) (zero_of (VIface (Some (t, v))))
      = Done (VIface (Some (t, c)), h1)" by simp
  then show ?case by blast
next
  case (acy_struct fs)
  let ?z = "map (map_prod id (map_prod id zero_of)) fs"
  have "\<exists>n r. mapM_heap (copyField n) (zip fs ?z) h' = Done r"
  proof (rule mapM_heap_terminates[where f = copyField and ?h0.0 = h',
        OF copyField_fuel_Suc copyField_prefix _ prefix_order.refl])
    fix x h1
    assume x: "x \<in> set (zip fs ?z)" and p: "prefix h' h1"
    from zero_of_struct_zip[OF x] obtain name e v where
      v: "(name, e, v) \<in> set fs" "x = ((name, e, v), (name, e, zero_of v))" by blast
    have "prefix h h1" using acy_struct.prems p by (rule prefix_order.trans)
    from acy_struct.IH[OF v(1) this] obtain n c h2 where
      "copyRecursive n h1 v (zero_of v) = Done (c, h2)" by auto
    then have "\<exists>r. copyField n x h1 = Done r" using v(2) by (cases e) (auto simp: copyField_def)
    then show "\<exists>n r. copyField n x h1 = Done r" by blast
  qed
  then obtain n cfs' h1 where "mapM_heap (copyField n) (zip fs ?z) h' = Done (cfs', h1)" by auto
  then have "copyRecursive (Suc n) h' (VStruct fs) (zero_of (VStruct fs)) = Done (VStruct cfs', h1)"
    by simp
  then show ?case by blast
next
  case acy_snil
  have "copyRecursive (Suc 0) h' (VSlice None) (zero_of (VSlice None)) = Done (VSlice None, h')" by simp
  then show ?case by blast
next
  case (acy_slice xs c)
  let ?f = "\<lambda>n x h'. copyRecursive n h' x (zero_of x)"
  have "\<exists>n r. mapM_heap (?f n) xs h' = Done r"
  proof (rule mapM_heap_terminates[where f = ?f and ?h0.0 = h', OF _ _ _ prefix_order.refl])
    fix n x h r
    assume "?f n x h = Done r"
    then show "?f (Suc n) x h = Done r" by (rule copyRecursive_fuel_Suc)
  next
    fix n x h y h1
    assume "?f n x h = Done (y, h1)"
    then show "prefix h h1" by (rule copyRecursive_prefix)
  next
    fix x h1
    assume x: "x \<in> set xs" and p: "prefix h' h1"
    have "prefix h h1" using acy_slice.prems p by (rule prefix_order.trans)
    from acy_slice.IH[OF x this] show "\<exists>n r. ?f n x h1 = Done r" .
  qed
  then obtain n ys h1 where "mapM_heap (?f n) xs h' = Done (ys, h1)" by auto
  then have "copyRecursive (Suc n) h' (VSlice (Some (xs, c))) (zero_of (VSlice (Some (xs, c))))
      = Done (VSlice (Some (ys, c)), h1)" by simp
  then show ?case by blast
next
  case acy_mnil
  have "copyRecursive (Suc 0) h' (VMap None) (zero_of (VMap None)) = Done (VMap None, h')" by simp
  then show ?case by blast
next
  case (acy_map kvs)
  have "\<exists>n r. mapM_heap (\<lambda>key. copyEntry n kvs key) (MapKeys kvs) h' = Done r"
  proof (rule mapM_heap_terminates[where f = "\<lambda>n. copyEntry n kvs" and ?h0.0 = h',
        OF copyEntry_fuel_Suc copyEntry_prefix _ prefix_order.refl])
    fix x h1
    assume x: "x \<in> set (MapKeys kvs)" and p: "prefix h' h1"
    then obtain v where v: "map_of kvs x = Some v"
      by (cases "map_of kvs x") (auto simp: map_of_eq_None_iff MapKeys_def)
    then have mem: "(x, v) \<in> set kvs" by (rule map_of_SomeD)
    have "prefix h h1" using acy_map.prems p by (rule prefix_order.trans)
    with acy_map.IH[OF mem] obtain n c h2 where "copyRecursive n h1 v (zero_of v) = Done (c, h2)"
      by auto
    then have "\<exists>r. copyEntry n kvs x h1 = Done r" using v by (simp add: copyEntry_def)
    then show "\<exists>n r. copyEntry n kvs x h1 = Done r" by blast
  qed
  then obtain n kcs h1 where "mapM_heap (copyEntry n kvs) (MapKeys kvs) h' = Done (kcs, h1)" by auto
  then have "\<exists>r. copyRecursive (Suc n) h' (VMap (Some kvs)) (zero_of (VMap (Some kvs))) = Done r"
    by simp
  then show ?case by blast
qed


lemma deepCopy_fuel_mono:
  assumes "deepCopy n h v = Done r" "n \<le> m"
  shows "deepCopy m h v = Done r"
proof (cases "\<exists>i. v = VIface i")
  case True
  then obtain i where v: "v = VIface i" by blast
  show ?thesis
  proof (cases i)
    case None
    with assms v show ?thesis by (simp add: deepCopy_def)
  next
    case (Some tx)
    obtain t x where tx: "tx = (t, x)" by (cases tx)
    from assms(1) obtain c h' where
      c: "copyRecursive n h x (zero_of x) = Done (c, h')" "r = (VIface (Some (t, c)), h')"
      unfolding v Some tx by (auto simp: deepCopy_def bind_run_Done_iff)
    from copyRecursive_fuel_mono[OF c(1) assms(2)] c(2) show ?thesis
      unfolding v Some tx by (simp add: deepCopy_def)
  qed
next
  case False
  then have eq: "\<And>k. deepCopy k h v = copyRecursive k h v (zero_of v)"
    by (auto simp: deepCopy_def split: gval.splits)
  from assms show ?thesis unfolding eq by (rule copyRecursive_fuel_mono)
qed

lemma deepCopy_returns:
  assumes "acyclicVal h v" "v \<noteq> VIface None"
  shows "\<exists>n c h'. deepCopy n h v = Done (c, h')"
proof (cases "\<exists>t x. v = VIface (Some (t, x))")
  case True
  then obtain t x where v: "v = VIface (Some (t, x))" by blast
  from assms(1) have "acyclicVal h x" unfolding v by (cases rule: acyclicVal.cases) auto
  from copyRecursive_terminates[OF this prefix_order.refl] obtain n c h' where
    "copyRecursive n h x (zero_of x) = Done (c, h')" by auto
  then have "deepCopy n h v = Done (VIface (Some (t, c)), h')" by (simp add: deepCopy_def v)
  then show ?thesis by blast
next
  case False
  from copyRecursive_terminates[OF assms(1) prefix_order.refl] obtain n c h' where
    "copyRecursive n h v (zero_of v) = Done (c, h')" by auto
  moreover have "deepCopy n h v = copyRecursive n h v (zero_of v)"
    using False assms(2) by (auto simp: deepCopy_def split: gval.splits option.splits)
  ultimately show ?thesis by auto
qed

lemma deepCopy_nil_interface: "deepCopy n h (VIface None) = Panic"
  by (simp add: deepCopy_def)



lemma acyclicVal_profile: "acyclicVal profileHeap profile"
  unfolding profile_def profileHeap_def user_def
  by (auto intro!: acyclicVal.intros)

section \<open>Termination of the deep copy\<close>

text \<open>
  Claim C7. On every input whose value graph is acyclic, \<open>deepCopy\<close> terminates: some
  recursion depth is enough, and so is every larger one. The recursion of
  \<open>copyRecursive\<close> over pointers, interfaces, struct fields, slice elements and map
  values then returns a copy. (\<open>loop_never_returns\<close> shows that the premise is needed:
  on a cell that points to itself no depth is enough.)
\<close>

theorem deepCopy_terminates_if_acyclic:
  assumes "acyclicVal h v"
  shows "(\<exists>n. \<forall>m\<ge>n. deepCopy m h v \<noteq> OutOfFuel)
       \<and> (\<exists>n c h'. \<forall>m\<ge>n. copyRecursive m h v (zero_of v) = Done (c, h'))"
proof
  show "\<exists>n. \<forall>m\<ge>n. deepCopy m h v \<noteq> OutOfFuel"
  proof (cases "v = VIface None")
    case True
    then show ?thesis by (simp add: deepCopy_nil_interface)
  next
    case False
    from deepCopy_returns[OF assms False] obtain n c h' where
      "deepCopy n h v = Done (c, h')" by blast
    then have "\<forall>m\<ge>n. deepCopy m h v = Done (c, h')" by (blast intro: deepCopy_fuel_mono)
    then show ?thesis by (metis run.distinct(3))
  qed
next
  from copyRecursive_terminates[OF assms prefix_order.refl] obtain n c h' where
    "copyRecursive n h v (zero_of v) = Done (c, h')" by auto
  then have "\<forall>m\<ge>n. copyRecursive m h v (zero_of v) = Done (c, h')"
    by (blast intro: copyRecursive_fuel_mono)
  then show "\<exists>n c h'. \<forall>m\<ge>n. copyRecursive m h v (zero_of v) = Done (c, h')" by blast
qed

theorem deepCopy_terminates_if_acyclic_witness:
  "acyclicVal profileHeap profile
   \<and> (\<exists>n. \<forall>m\<ge>n. deepCopy m profileHeap profile \<noteq> OutOfFuel)
   \<and> (\<exists>n c h'. \<forall>m\<ge>n. copyRecursive m profileHeap profile (zero_of profile) = Done (c, h'))"
  using deepCopy_terminates_if_acyclic[OF acyclicVal_profile] acyclicVal_profile by blast


section \<open>What the copy of a struct contains\<close>

lemma mapM_heap_nth:
  assumes pre: "\<And>x h y h'. f x h = Done (y, h') \<Longrightarrow> prefix h h'"
    and "mapM_heap f xs h = Done (ys, h')" "i < length xs"
  shows "\<exists>hi hi'. prefix h hi \<and> f (xs ! i) hi = Done (ys ! i, hi') \<and> prefix hi' h'"
  using assms(2,3)
proof (induction xs arbitrary: h ys i)
  case Nil
  then show ?case by simp
next
  case (Cons x xs)
  from Cons.prems(1) obtain y h1 ys' where
    s: "f x h = Done (y, h1)" "mapM_heap f xs h1 = Done (ys', h')" "ys = y # ys'"
    by (rule mapM_heap_ConsE)
  show ?case
  proof (cases i)
    case 0
    have "prefix h1 h'" by (rule mapM_heap_prefix[OF pre s(2)])
    with s 0 show ?thesis by auto
  next
    case (Suc j)
    with Cons.prems(2) have "j < length xs" by simp
    from Cons.IH[OF s(2) this] obtain hi hi' where
      "prefix h1 hi" "f (xs ! j) hi = Done (ys' ! j, hi')" "prefix hi' h'" by blast
    moreover have "prefix h h1" by (rule pre[OF s(1)])
    ultimately show ?thesis using Suc s(3) by (auto intro: prefix_order.trans)
  qed
qed

lemma deepCopy_profile:
  "deepCopy 4 profileHeap profile =
     Done (VStruct [(''Owner'', True, VPtr (Some 1)),
              (''Extra'', True, VIface (Some (''string'', VScalar (SString ''vip'')))),
              (''Tags'', True, VSlice (Some ([VScalar (SString ''a''), VScalar (SString ''b'')], 4))),
              (''Scores'', True, VMap (Some [(VScalar (SString ''go''), VScalar (SInt 7))])),
              (''seen'', False, VScalar (SInt 0))],
           [user 1 ''Zhang'' 19, user 1 ''Zhang'' 19])"
  by (simp add: deepCopy_def profile_def profileHeap_def user_def copyField_def copyEntry_def
      MapKeys_def eval_nat_numeral)






section \<open>An entry that was never modified\<close>

lemma Set_account_hidden:
  "Set rowStore 3 (NewWithCache (account 1 ''x'') 10 []) 1 (account 1 ''x'') = Done (None, hiddenState)"
  by (simp add: Set_def NewWithCache_def deepCopy_def account_def copyField_def cacheSet_def
      cacheRemove_def logCacheAdd_def printf_def hiddenState_def eval_nat_numeral)

lemma Set_account_clean:
  "Set rowStore 3 (NewWithCache (account 1 []) 10 []) 1 (account 1 []) = Done (None, cleanState)"
  by (simp add: Set_def NewWithCache_def deepCopy_def account_def copyField_def cacheSet_def
      cacheRemove_def logCacheAdd_def printf_def cleanState_def eval_nat_numeral)

lemma purgeToDB_hiddenState:
  "purgeToDB rowStore 3 hiddenState 1 (PtrT (Some 0)) =
     Done (hiddenState\<lparr>copies := Map.empty,
        stdout := [NewCacheAdded 1, SavedChanges 1, PurgedFromCache 1],
        updateCalls := [(account 1 [], account 1 ''x'')]\<rparr>)"
  unfolding purgeToDB_def saveIfModified_def
  by (simp add: hiddenState_def DeepEqual_hiddenState rowStore_def printf_def)

text \<open>
  Claim C2 fails on the code. \<open>Set(1, v)\<close> for an entity \<open>v\<close> whose field without
  external visibility is not zero, followed by a purge or an expiry with no mutation in
  between, issues an update call: the recorded copy has the zero value in that field,
  and \<open>reflect.DeepEqual\<close> compares it with the live one.
\<close>

theorem unmodified_entry_written_back:
  "Set rowStore 3 (NewWithCache (account 1 ''x'') 10 []) 1 (account 1 ''x'') = Done (None, hiddenState)
   \<and> (\<exists>c'. cachePurge rowStore 3 hiddenState = Done c'
         \<and> updateCalls c' = [(account 1 [], account 1 ''x'')]
         \<and> stdout c' = [NewCacheAdded 1, SavedChanges 1, PurgedFromCache 1])
   \<and> (\<exists>c'. cacheExpire rowStore 3 hiddenState 1 = Done c'
         \<and> updateCalls c' = [(account 1 [], account 1 ''x'')]
         \<and> stdout c' = [NewCacheAdded 1, SavedChanges 1, EvictedFromCache 1])"
proof -
  have c: "Cache hiddenState = [(1, PtrT (Some 0))]" by (simp add: hiddenState_def)
  have p: "\<exists>c'. cachePurge rowStore 3 hiddenState = Done c'
         \<and> updateCalls c' = [(account 1 [], account 1 ''x'')]
         \<and> stdout c' = [NewCacheAdded 1, SavedChanges 1, PurgedFromCache 1]"
    by (simp add: cachePurge_def c purgeToDB_hiddenState)
  have e: "\<exists>c'. cacheExpire rowStore 3 hiddenState 1 = Done c'
         \<and> updateCalls c' = [(account 1 [], account 1 ''x'')]
         \<and> stdout c' = [NewCacheAdded 1, SavedChanges 1, EvictedFromCache 1]"
    by (simp add: cacheExpire_def c evict_hiddenState)
  from Set_account_hidden p e show ?thesis by blast
qed

section \<open>When the deep copy returns\<close>






section \<open>Loading on a miss\<close>

lemma deepCopy_prefix: "deepCopy n h v = Done (c, h') \<Longrightarrow> prefix h h'"
  by (auto simp: deepCopy_def bind_run_Done_iff split: gval.splits option.splits
      dest: copyRecursive_prefix)

lemma evictToDB_frame:
  "evictToDB G n c key val = Done c' \<Longrightarrow>
     memory c' = memory c \<and> Cache c' = Cache c \<and> capacity c' = capacity c"
  by (auto simp: evictToDB_def bind_run_Done_iff printf_def Let_def
      dest!: saveIfModified_cases split: option.splits)

lemma purgeToDB_frame:
  "purgeToDB G n c key val = Done c' \<Longrightarrow>
     memory c' = memory c \<and> Cache c' = Cache c \<and> capacity c' = capacity c"
  by (auto simp: purgeToDB_def bind_run_Done_iff printf_def Let_def
      dest!: saveIfModified_cases split: option.splits)






section \<open>Set followed by Get\<close>

lemma map_of_cache_front [simp]:
  "map_of ((key, val) # cacheRemove key items) key = Some val"
  by simp





section \<open>A copy compared with its original\<close>

text \<open>
  The comparison keeps its verdict when it is given a larger budget or a heap with more
  cells; every value is equal to itself; and the copy that \<open>copyRecursive\<close> returns is
  equal to the original over exported state.
\<close>

lemma all2_run_ConsE:
  assumes "all2_run f (x # xs) (y # ys) = Done r"
  obtains "f x y = Done True" "all2_run f xs ys = Done r" | "f x y = Done False" "r = False"
  using assms by (cases "f x y") (auto split: if_splits)

lemma all2_run_transfer:
  assumes "all2_run f xs ys = Done r"
    and "\<And>x y r. x \<in> set xs \<Longrightarrow> y \<in> set ys \<Longrightarrow> f x y = Done r \<Longrightarrow> g x y = Done r"
  shows "all2_run g xs ys = Done r"
  using assms
proof (induction f xs ys rule: all2_run.induct)
  case (2 f x xs y ys)
  from "2.prems"(1) show ?case
  proof (cases rule: all2_run_ConsE)
    case 1
    have "g x y = Done True" using "2.prems"(2)[of x y True] 1(1) by simp
    moreover have "all2_run g xs ys = Done r"
      using "2.IH"[of True] 1(2) "2.prems"(2) by auto
    ultimately show ?thesis by simp
  next
    case 2
    have "g x y = Done False" using "2.prems"(2)[of x y False] 2(1) by simp
    with 2(2) show ?thesis by simp
  qed
qed simp_all

lemma valueEqual_mono:
  "valueEqual s n h v1 v2 = Done r \<Longrightarrow> n \<le> n' \<Longrightarrow> prefix h h'
     \<Longrightarrow> valueEqual s n' h' v1 v2 = Done r"
proof (induction n arbitrary: n' v1 v2 r)
  case 0
  then show ?case by simp
next
  case (Suc n)
  from Suc.prems(2) obtain k where n': "n' = Suc k" and le: "n \<le> k" by (cases n') auto
  note IH = Suc.IH[OF _ le Suc.prems(3)]
  note eq = Suc.prems(1)
  have lists: "\<And>xs ys r. all2_run (valueEqual s n h) xs ys = Done r
      \<Longrightarrow> all2_run (valueEqual s k h') xs ys = Done r"
    by (erule all2_run_transfer) (rule IH)
  have len: "\<And>a. a < length h \<Longrightarrow> a < length h'"
    using Suc.prems(3) by (auto dest: prefix_length_le)
  have nth: "\<And>a. a < length h \<Longrightarrow> h' ! a = h ! a"
    using Suc.prems(3) by (rule prefix_nth)
  show ?case unfolding n'
  proof (cases v1)
    case (VScalar s1)
    with eq show "valueEqual s (Suc k) h' v1 v2 = Done r" by (cases v2) simp_all
  next
    case (VArray xs)
    with eq lists show "valueEqual s (Suc k) h' v1 v2 = Done r" by (cases v2) simp_all
  next
    case (VPtr p)
    with eq IH len nth show "valueEqual s (Suc k) h' v1 v2 = Done r"
      by (cases v2) (auto split: option.splits if_splits)
  next
    case (VIface i)
    with eq IH show "valueEqual s (Suc k) h' v1 v2 = Done r"
      by (cases v2) (auto split: option.splits if_splits)
  next
    case (VStruct fs)
    show "valueEqual s (Suc k) h' v1 v2 = Done r"
    proof (cases v2)
      case (VStruct gs)
      have "all2_run (\<lambda>(name1, exported1, x) (name2, exported2, y).
                    if name1 \<noteq> name2 \<or> exported1 \<noteq> exported2 then Done False
                    else if s \<and> \<not> exported1 then Done True
                    else valueEqual s k h' x y) fs gs = Done r"
        apply (rule all2_run_transfer[where f = "(\<lambda>(name1, exported1, x) (name2, exported2, y).
                    if name1 \<noteq> name2 \<or> exported1 \<noteq> exported2 then Done False
                    else if s \<and> \<not> exported1 then Done True
                    else valueEqual s n h x y)"])
        using eq \<open>v1 = VStruct fs\<close> VStruct apply simp
        using IH by (auto split: if_splits)
      then show ?thesis using \<open>v1 = VStruct fs\<close> VStruct by simp
    qed (use eq \<open>v1 = VStruct fs\<close> in simp_all)
  next
    case (VSlice sl)
    with eq lists show "valueEqual s (Suc k) h' v1 v2 = Done r"
      by (cases v2) (auto split: option.splits if_splits)
  next
    case (VMap m)
    show "valueEqual s (Suc k) h' v1 v2 = Done r"
    proof (cases v2)
      case (VMap m2)
      show ?thesis
      proof (cases "\<exists>kvs kws. m = Some kvs \<and> m2 = Some kws \<and> MapLen kvs = MapLen kws")
        case False
        then show ?thesis using eq \<open>v1 = VMap m\<close> VMap
          by (cases m; cases m2) auto
      next
        case True
        then obtain kvs kws where m: "m = Some kvs" "m2 = Some kws" "MapLen kvs = MapLen kws"
          by blast
        have all: "all2_run (\<lambda>key _. case (map_of kvs key, map_of kws key) of
                                        (Some x, Some y) \<Rightarrow> valueEqual s n h x y
                                      | _ \<Rightarrow> Done False) (MapKeys kvs) (MapKeys kvs) = Done r"
          using eq \<open>v1 = VMap m\<close> VMap m by simp
        have "all2_run (\<lambda>key _. case (map_of kvs key, map_of kws key) of
                                        (Some x, Some y) \<Rightarrow> valueEqual s k h' x y
                                      | _ \<Rightarrow> Done False) (MapKeys kvs) (MapKeys kvs) = Done r"
          by (rule all2_run_transfer[OF all]) (auto split: option.splits intro: IH)
        then show ?thesis using \<open>v1 = VMap m\<close> VMap m by simp
      qed
    qed (use eq \<open>v1 = VMap m\<close> in simp_all)
  qed
qed


lemma eventually_Suc:
  assumes "\<exists>n. \<forall>m\<ge>n. P (Suc m)"
  shows "\<exists>n. \<forall>m\<ge>n. P m"
proof -
  from assms obtain n where n: "\<forall>m\<ge>n. P (Suc m)" by blast
  have "\<forall>m\<ge>Suc n. P m"
  proof (intro allI impI)
    fix m assume "Suc n \<le> m"
    then obtain k where "m = Suc k" "n \<le> k" by (cases m) auto
    with n show "P m" by simp
  qed
  then show ?thesis by blast
qed

lemma all2_run_list_all2:
  fixes f :: "nat \<Rightarrow> 'a \<Rightarrow> 'b \<Rightarrow> bool run"
  assumes "list_all2 (\<lambda>x y. \<exists>n. \<forall>m\<ge>n. f m x y = Done True) xs ys"
  shows "\<exists>n. \<forall>m\<ge>n. all2_run (f m) xs ys = Done True"
  using assms
proof (induction rule: list_all2_induct)
  case Nil
  show ?case by simp
next
  case (Cons x xs y ys)
  from Cons.hyps(1) obtain n1 where n1: "\<forall>m\<ge>n1. f m x y = Done True" by blast
  from Cons.IH obtain n2 where n2: "\<forall>m\<ge>n2. all2_run (f m) xs ys = Done True" by blast
  have "\<forall>m\<ge>max n1 n2. all2_run (f m) (x # xs) (y # ys) = Done True"
  proof (intro allI impI)
    fix m assume "max n1 n2 \<le> m"
    then have "n1 \<le> m" "n2 \<le> m" by simp_all
    with n1 n2 have "f m x y = Done True" "all2_run (f m) xs ys = Done True" by simp_all
    then show "all2_run (f m) (x # xs) (y # ys) = Done True" by simp
  qed
  then show ?case by blast
qed

lemma all2_run_same:
  fixes f :: "nat \<Rightarrow> 'a \<Rightarrow> 'a \<Rightarrow> bool run"
  assumes "\<And>x. x \<in> set xs \<Longrightarrow> \<exists>n. \<forall>m\<ge>n. f m x x = Done True"
  shows "\<exists>n. \<forall>m\<ge>n. all2_run (f m) xs xs = Done True"
  by (rule all2_run_list_all2) (simp add: list_all2_same assms)

lemma valueEqual_refl: "\<exists>n. \<forall>m\<ge>n. valueEqual s m h x x = Done True"
proof (induction x)
  case (VScalar x)
  show ?case by (rule eventually_Suc) simp
next
  case (VArray xs)
  have "\<exists>n. \<forall>m\<ge>n. all2_run (valueEqual s m h) xs xs = Done True"
    by (rule all2_run_same) (rule VArray)
  then show ?case by - (rule eventually_Suc, simp)
next
  case (VPtr p)
  show ?case by (rule eventually_Suc) (cases p; simp)
next
  case (VIface i)
  show ?case
  proof (cases i)
    case None
    show ?thesis by (rule eventually_Suc) (simp add: None)
  next
    case (Some tv)
    obtain t v where tv: "tv = (t, v)" by (cases tv)
    have "\<exists>n. \<forall>m\<ge>n. valueEqual s m h v v = Done True"
      by (rule VIface[of tv v]) (simp_all add: Some tv)
    then show ?thesis by - (rule eventually_Suc, simp add: Some tv)
  qed
next
  case (VStruct fs)
  let ?F = "\<lambda>m. (\<lambda>(name1 :: string, exported1 :: bool, x) (name2 :: string, exported2 :: bool, y).
                    if name1 \<noteq> name2 \<or> exported1 \<noteq> exported2 then Done False
                    else if s \<and> \<not> exported1 then Done True
                    else valueEqual s m h x y)"
  have "\<exists>n. \<forall>m\<ge>n. all2_run (?F m) fs fs = Done True"
  proof (rule all2_run_same)
    fix p assume p: "p \<in> set fs"
    obtain name e v where pv: "p = (name, e, v)" by (cases p)
    have "\<exists>n. \<forall>m\<ge>n. valueEqual s m h v v = Done True"
      by (rule VStruct[OF p, of "snd p" v]) (simp_all add: pv)
    then show "\<exists>n. \<forall>m\<ge>n. ?F m p p = Done True"
      unfolding pv by auto
  qed
  then show ?case by - (rule eventually_Suc, simp)
next
  case (VSlice sl)
  show ?case
  proof (cases sl)
    case None
    show ?thesis by (rule eventually_Suc) (simp add: None)
  next
    case (Some xc)
    obtain xs c where xc: "xc = (xs, c)" by (cases xc)
    have "\<exists>n. \<forall>m\<ge>n. all2_run (valueEqual s m h) xs xs = Done True"
      by (rule all2_run_same) (rule VSlice[of xc xs], simp_all add: Some xc)
    then show ?thesis by - (rule eventually_Suc, simp add: Some xc)
  qed
next
  case (VMap mp)
  show ?case
  proof (cases mp)
    case None
    show ?thesis by (rule eventually_Suc) (simp add: None)
  next
    case (Some kvs)
    let ?G = "\<lambda>m. (\<lambda>key (_ :: gval). case (map_of kvs key, map_of kvs key) of
                                        (Some x, Some y) \<Rightarrow> valueEqual s m h x y
                                      | _ \<Rightarrow> Done False)"
    have "\<exists>n. \<forall>m\<ge>n. all2_run (?G m) (MapKeys kvs) (MapKeys kvs) = Done True"
    proof (rule all2_run_same)
      fix key assume "key \<in> set (MapKeys kvs)"
      then obtain v where v: "map_of kvs key = Some v"
        by (cases "map_of kvs key") (auto simp: map_of_eq_None_iff MapKeys_def)
      then have mem: "(key, v) \<in> set kvs" by (rule map_of_SomeD)
      have "\<exists>n. \<forall>m\<ge>n. valueEqual s m h v v = Done True"
        by (rule VMap(2)[of kvs "(key, v)" v]) (simp_all add: Some mem)
      then show "\<exists>n. \<forall>m\<ge>n. ?G m key key = Done True" by (simp add: v)
    qed
    then show ?thesis by - (rule eventually_Suc, simp add: Some)
  qed
qed


lemma update_fresh_key: "k \<notin> fst ` set al \<Longrightarrow> AList.update k v al = al @ [(k, v)]"
  by (induction al) auto

lemma foldl_update_distinct:
  "distinct (map fst (acc @ kcs)) \<Longrightarrow>
     foldl (\<lambda>m (key, c). AList.update key c m) acc kcs = acc @ kcs"
proof (induction kcs arbitrary: acc)
  case Nil
  show ?case by simp
next
  case (Cons kc kcs)
  obtain k c where kc: "kc = (k, c)" by (cases kc)
  from Cons.prems have fresh: "k \<notin> fst ` set acc" unfolding kc by auto
  from Cons.prems have "distinct (map fst ((acc @ [(k, c)]) @ kcs))" unfolding kc by simp
  from Cons.IH[OF this] show ?case
    unfolding kc by (simp add: update_fresh_key[OF fresh])
qed

lemma mapM_copyEntry_keys:
  "mapM_heap (copyEntry n kvs) ks h = Done (kcs, h') \<Longrightarrow> map fst kcs = ks"
proof (induction ks arbitrary: h kcs)
  case Nil
  then show ?case by simp
next
  case (Cons k ks)
  from Cons.prems obtain y h1 ys where
    s: "copyEntry n kvs k h = Done (y, h1)" "mapM_heap (copyEntry n kvs) ks h1 = Done (ys, h')"
      "kcs = y # ys"
    by (rule mapM_heap_ConsE)
  from s(1) have "fst y = k" unfolding copyEntry_Done by auto
  with Cons.IH[OF s(2)] s(3) show ?case by simp
qed

lemma all2_run_nth:
  fixes f :: "nat \<Rightarrow> 'a \<Rightarrow> 'b \<Rightarrow> bool run"
  assumes "length xs = length ys"
    and "\<And>i. i < length xs \<Longrightarrow> \<exists>n. \<forall>m\<ge>n. f m (xs ! i) (ys ! i) = Done True"
  shows "\<exists>n. \<forall>m\<ge>n. all2_run (f m) xs ys = Done True"
  by (rule all2_run_list_all2) (simp add: list_all2_conv_all_nth assms)

lemma valueEqual_later:
  assumes "\<exists>n. \<forall>m\<ge>n. valueEqual s m h v1 v2 = Done True" "prefix h h'"
  shows "\<exists>n. \<forall>m\<ge>n. valueEqual s m h' v1 v2 = Done True"
proof -
  from assms(1) obtain n where n: "\<forall>m\<ge>n. valueEqual s m h v1 v2 = Done True" by blast
  have "\<forall>m\<ge>n. valueEqual s m h' v1 v2 = Done True"
    using n assms(2) by (auto intro: valueEqual_mono[where n' = m and n = m for m, simplified])
  then show ?thesis by blast
qed


lemma copyRecursive_exportedEqual:
  "copyRecursive n h v (zero_of v) = Done (c, h') \<Longrightarrow>
     \<exists>k. \<forall>m\<ge>k. valueEqual True m h' c v = Done True"
proof (induction n arbitrary: h v c h')
  case 0
  then show ?case by simp
next
  case (Suc n)
  note IH = Suc.IH
  from copyRecursive_Suc_cases[OF Suc.prems] show ?case
  proof (elim disjE exE conjE)
    fix a c1 h1
    assume a: "v = VPtr (Some a)" "a < length h"
      "copyRecursive n h (h ! a) (zero_of (h ! a)) = Done (c1, h1)"
      "c = VPtr (Some (length h1))" "h' = h1 @ [c1]"
    have p: "prefix h h1" by (rule copyRecursive_prefix[OF a(3)])
    have lt: "a < length h1" using a(2) p by (auto dest: prefix_length_le)
    have cell: "h' ! a = h ! a" using a(5) lt prefix_nth[OF p a(2)] by (simp add: nth_append)
    from IH[OF a(3)] have "\<exists>k. \<forall>m\<ge>k. valueEqual True m h1 c1 (h ! a) = Done True" .
    then have "\<exists>k. \<forall>m\<ge>k. valueEqual True m h' c1 (h ! a) = Done True"
      by (rule valueEqual_later) (simp add: a(5))
    then have "\<exists>k. \<forall>m\<ge>k. valueEqual True (Suc m) h' c v = Done True"
      using a(1,4,5) lt cell by auto
    then show ?thesis by (rule eventually_Suc)
  next
    fix t x c1
    assume a: "v = VIface (Some (t, x))" "copyRecursive n h x (zero_of x) = Done (c1, h')"
      "c = VIface (Some (t, c1))"
    from IH[OF a(2)] have "\<exists>k. \<forall>m\<ge>k. valueEqual True (Suc m) h' c v = Done True"
      using a(1,3) by simp
    then show ?thesis by (rule eventually_Suc)
  next
    fix fs cfs cfs'
    assume a: "v = VStruct fs" "zero_of v = VStruct cfs" "length cfs = length fs"
      "mapM_heap (copyField n) (zip fs cfs) h = Done (cfs', h')" "c = VStruct cfs'"
    let ?F = "\<lambda>m. (\<lambda>(name1 :: string, exported1 :: bool, x) (name2 :: string, exported2 :: bool, y).
                    if name1 \<noteq> name2 \<or> exported1 \<noteq> exported2 then Done False
                    else if True \<and> \<not> exported1 then Done True
                    else valueEqual True m h' x y)"
    have cfs: "cfs = map (map_prod id (map_prod id zero_of)) fs" using a(1,2) by simp
    have len: "length cfs' = length fs" using mapM_heap_length[OF a(4)] a(3) by simp
    have "\<exists>k. \<forall>m\<ge>k. all2_run (?F m) cfs' fs = Done True"
    proof (rule all2_run_nth[OF len])
      fix i assume i: "i < length cfs'"
      obtain name e x where f: "fs ! i = (name, e, x)" by (cases "fs ! i")
      have zi: "zip fs cfs ! i = ((name, e, x), (name, e, zero_of x))"
        using i len f cfs by simp
      have "\<exists>hi hi'. prefix h hi \<and> copyField n (zip fs cfs ! i) hi = Done (cfs' ! i, hi')
          \<and> prefix hi' h'"
      proof (rule mapM_heap_nth[where f = "copyField n"])
        show "\<And>x h y h'. copyField n x h = Done (y, h') \<Longrightarrow> prefix h h'"
          by (rule copyField_prefix)
        show "mapM_heap (copyField n) (zip fs cfs) h = Done (cfs', h')" by (rule a(4))
        show "i < length (zip fs cfs)" using i len a(3) by simp
      qed
      then obtain hi hi' where
        hi: "copyField n ((name, e, x), (name, e, zero_of x)) hi = Done (cfs' ! i, hi')"
          "prefix hi' h'"
        unfolding zi by blast
      show "\<exists>k. \<forall>m\<ge>k. ?F m (cfs' ! i) (fs ! i) = Done True"
      proof (cases e)
        case True
        with hi(1) obtain c' where
          c': "copyRecursive n hi x (zero_of x) = Done (c', hi')" "cfs' ! i = (name, e, c')"
          unfolding copyField_Done by auto
        from IH[OF c'(1)] have "\<exists>k. \<forall>m\<ge>k. valueEqual True m h' c' x = Done True"
          by (rule valueEqual_later) (rule hi(2))
        then show ?thesis using True by (simp add: c'(2) f)
      next
        case False
        with hi(1) have "cfs' ! i = (name, e, zero_of x)"
          unfolding copyField_Done by auto
        then show ?thesis using False by (simp add: f)
      qed
    qed
    then have "\<exists>k. \<forall>m\<ge>k. valueEqual True (Suc m) h' c v = Done True"
      using a(1,5) by simp
    then show ?thesis by (rule eventually_Suc)
  next
    fix xs cap ys
    assume a: "v = VSlice (Some (xs, cap))"
      "mapM_heap (\<lambda>x h'. copyRecursive n h' x (zero_of x)) xs h = Done (ys, h')"
      "c = VSlice (Some (ys, cap))"
    have len: "length ys = length xs" by (rule mapM_heap_length[OF a(2)])
    have "\<exists>k. \<forall>m\<ge>k. all2_run (\<lambda>x y. valueEqual True m h' x y) ys xs = Done True"
    proof (rule all2_run_nth[OF len])
      fix i assume i: "i < length ys"
      have "\<exists>hi hi'. prefix h hi
          \<and> (\<lambda>x h'. copyRecursive n h' x (zero_of x)) (xs ! i) hi = Done (ys ! i, hi')
          \<and> prefix hi' h'"
      proof (rule mapM_heap_nth[where f = "\<lambda>x h'. copyRecursive n h' x (zero_of x)"])
        show "\<And>x h y h'. copyRecursive n h x (zero_of x) = Done (y, h') \<Longrightarrow> prefix h h'"
          by (rule copyRecursive_prefix)
        show "mapM_heap (\<lambda>x h'. copyRecursive n h' x (zero_of x)) xs h = Done (ys, h')"
          by (rule a(2))
        show "i < length xs" using i len by simp
      qed
      then obtain hi hi' where
        hi: "copyRecursive n hi (xs ! i) (zero_of (xs ! i)) = Done (ys ! i, hi')" "prefix hi' h'"
        by blast
      from IH[OF hi(1)] show "\<exists>k. \<forall>m\<ge>k. valueEqual True m h' (ys ! i) (xs ! i) = Done True"
        by (rule valueEqual_later) (rule hi(2))
    qed
    then have "\<exists>k. \<forall>m\<ge>k. valueEqual True (Suc m) h' c v = Done True"
      using a(1,3) len by simp
    then show ?thesis by (rule eventually_Suc)
  next
    fix kvs kcs
    assume a: "v = VMap (Some kvs)"
      "mapM_heap (copyEntry n kvs) (MapKeys kvs) h = Done (kcs, h')"
      "c = VMap (Some (foldl (\<lambda>m (key, c). AList.update key c m) [] kcs))"
    have keys: "map fst kcs = MapKeys kvs" by (rule mapM_copyEntry_keys[OF a(2)])
    then have dist: "distinct (map fst kcs)" by (simp add: MapKeys_def)
    have c: "c = VMap (Some kcs)"
      using foldl_update_distinct[of "[]" kcs] dist a(3) by simp
    have mk: "MapKeys kcs = MapKeys kvs" using keys by (simp add: MapKeys_def)
    let ?G = "\<lambda>m. (\<lambda>key (_ :: gval). case (map_of kcs key, map_of kvs key) of
                                        (Some x, Some y) \<Rightarrow> valueEqual True m h' x y
                                      | _ \<Rightarrow> Done False)"
    have "\<exists>k. \<forall>m\<ge>k. all2_run (?G m) (MapKeys kvs) (MapKeys kvs) = Done True"
    proof (rule all2_run_same)
      fix key assume "key \<in> set (MapKeys kvs)"
      then obtain i where i: "i < length (MapKeys kvs)" "MapKeys kvs ! i = key"
        by (auto simp: in_set_conv_nth)
      have "\<exists>hi hi'. prefix h hi \<and> copyEntry n kvs (MapKeys kvs ! i) hi = Done (kcs ! i, hi')
          \<and> prefix hi' h'"
      proof (rule mapM_heap_nth[where f = "copyEntry n kvs"])
        show "\<And>x h y h'. copyEntry n kvs x h = Done (y, h') \<Longrightarrow> prefix h h'"
          by (rule copyEntry_prefix)
        show "mapM_heap (copyEntry n kvs) (MapKeys kvs) h = Done (kcs, h')" by (rule a(2))
        show "i < length (MapKeys kvs)" by (rule i(1))
      qed
      then obtain hi hi' x c' where
        e: "map_of kvs key = Some x" "copyRecursive n hi x (zero_of x) = Done (c', hi')"
          "kcs ! i = (key, c')" "prefix hi' h'"
        unfolding copyEntry_Done i(2) by blast
      have "i < length kcs" using i(1) keys by (metis length_map)
      then have "(key, c') \<in> set kcs" using e(3) by (metis nth_mem)
      then have mc: "map_of kcs key = Some c'" using dist by simp
      from IH[OF e(2)] have "\<exists>k. \<forall>m\<ge>k. valueEqual True m h' c' x = Done True"
        by (rule valueEqual_later) (rule e(4))
      then show "\<exists>k. \<forall>m\<ge>k. ?G m key key = Done True" by (simp add: e(1) mc)
    qed
    then have "\<exists>k. \<forall>m\<ge>k. valueEqual True (Suc m) h' c v = Done True"
      using a(1) c mk by (simp add: MapLen_def)
    then show ?thesis by (rule eventually_Suc)
  qed (use valueEqual_refl[of True h' v] in auto)
qed

lemma deepCopy_exportedEqual:
  assumes "deepCopy n h v = Done (c, h')"
  shows "\<exists>k. \<forall>m\<ge>k. exportedEqual m h' c v = Done True"
proof (cases "\<exists>i. v = VIface i")
  case True
  then obtain i where v: "v = VIface i" by blast
  show ?thesis
  proof (cases i)
    case None
    with assms v show ?thesis by (simp add: deepCopy_def)
  next
    case (Some tx)
    obtain t x where tx: "tx = (t, x)" by (cases tx)
    from assms obtain c1 where
      c1: "copyRecursive n h x (zero_of x) = Done (c1, h')" "c = VIface (Some (t, c1))"
      unfolding v Some tx by (auto simp: deepCopy_def bind_run_Done_iff)
    from copyRecursive_exportedEqual[OF c1(1)]
    have "\<exists>k. \<forall>m\<ge>k. valueEqual True (Suc m) h' c v = Done True"
      unfolding v Some tx c1(2) by simp
    then show ?thesis unfolding exportedEqual_def by (rule eventually_Suc)
  qed
next
  case False
  then have "deepCopy n h v = copyRecursive n h v (zero_of v)"
    by (auto simp: deepCopy_def split: gval.splits)
  with assms show ?thesis
    unfolding exportedEqual_def by (auto dest: copyRecursive_exportedEqual)
qed


section \<open>The registry follows the cache\<close>

lemma cacheRemove_keys: "fst ` set (cacheRemove k items) = fst ` set items - {k}"
  by (auto simp: cacheRemove_def image_iff)

lemma cacheRemove_distinct:
  "distinct (map fst items) \<Longrightarrow> distinct (map fst (cacheRemove k items))"
  by (simp add: cacheRemove_def distinct_map_filter)

lemma evictToDB_effect:
  "evictToDB G n c key val = Done c' \<Longrightarrow>
     copies c' = (copies c)(key := None) \<and> Cache c' = Cache c \<and> memory c' = memory c"
  using evictToDB_forgets[of G n c key val c'] evictToDB_frame[of G n c key val c'] by simp

lemma purgeToDB_effect:
  "purgeToDB G n c key val = Done c' \<Longrightarrow>
     copies c' = (copies c)(key := None) \<and> Cache c' = Cache c \<and> memory c' = memory c"
  using purgeToDB_forgets[of G n c key val c'] purgeToDB_frame[of G n c key val c'] by simp

lemma cacheEvictOne_effect:
  assumes "cacheEvictOne G n c = Done c'"
  shows "memory c' = memory c \<and>
     ((Cache c = [] \<and> c' = c) \<or>
      (\<exists>k v. Cache c \<noteq> [] \<and> last (Cache c) = (k, v)
         \<and> copies c' = (copies c)(k := None) \<and> Cache c' = cacheRemove k (Cache c)))"
proof (cases "Cache c = []")
  case True
  with assms show ?thesis by (simp add: cacheEvictOne_def)
next
  case False
  obtain k v where l: "last (Cache c) = (k, v)" by (cases "last (Cache c)")
  from assms False l obtain c1 where
    c1: "evictToDB G n c k v = Done c1" "c' = c1\<lparr>Cache := cacheRemove k (Cache c1)\<rparr>"
    by (auto simp: cacheEvictOne_def bind_run_Done_iff)
  from evictToDB_effect[OF c1(1)] c1(2) False l show ?thesis by simp
qed

lemma cacheSet_effect:
  assumes "cacheSet G n c key val = Done (r, c')"
  shows "r = None \<and> memory c' = memory c \<and> copies c' key = copies c key
     \<and> map_of (Cache c') key = Some val"
proof -
  from assms obtain c1 where
    c1: "(if key \<in> fst ` set (Cache c) then Done c
        else if length (Cache c) \<ge> capacity c then cacheEvictOne G n c
        else Done c) = Done c1"
    and r: "r = None" "c' = logCacheAdd (c1\<lparr>Cache := (key, val) # cacheRemove key (Cache c1)\<rparr>) key val"
    by (auto simp: cacheSet_def bind_run_Done_iff)
  have "memory c1 = memory c \<and> copies c1 key = copies c key"
  proof (cases "key \<notin> fst ` set (Cache c) \<and> length (Cache c) \<ge> capacity c")
    case False
    with c1 show ?thesis by (auto split: if_splits)
  next
    case True
    with c1 have e: "cacheEvictOne G n c = Done c1" by simp
    from cacheEvictOne_effect[OF e] show ?thesis
    proof (elim conjE disjE exE)
      fix k v
      assume a: "Cache c \<noteq> []" "last (Cache c) = (k, v)" "copies c1 = (copies c)(k := None)"
        "memory c1 = memory c"
      have "(k, v) \<in> set (Cache c)" using a(1,2) last_in_set[of "Cache c"] by simp
      then have "k \<noteq> key" using True by force
      with a show ?thesis by simp
    qed simp
  qed
  with r show ?thesis by (simp add: logCacheAdd_def printf_def)
qed

lemma cacheSet_synced:
  assumes "cacheSet G n c key val = Done (r, c')"
    and "distinct (map fst (Cache c))"
    and "dom (copies c) = insert key (fst ` set (Cache c))"
  shows "synced c'"
proof -
  from assms(1) obtain c1 where
    c1: "(if key \<in> fst ` set (Cache c) then Done c
        else if length (Cache c) \<ge> capacity c then cacheEvictOne G n c
        else Done c) = Done c1"
    and c': "c' = logCacheAdd (c1\<lparr>Cache := (key, val) # cacheRemove key (Cache c1)\<rparr>) key val"
    by (auto simp: cacheSet_def bind_run_Done_iff)
  have mid: "distinct (map fst (Cache c1)) \<and> dom (copies c1) = insert key (fst ` set (Cache c1))"
  proof (cases "key \<notin> fst ` set (Cache c) \<and> length (Cache c) \<ge> capacity c")
    case False
    with c1 have "c1 = c" by (auto split: if_splits)
    with assms(2,3) show ?thesis by simp
  next
    case True
    with c1 have e: "cacheEvictOne G n c = Done c1" by simp
    from cacheEvictOne_effect[OF e] show ?thesis
    proof (elim conjE disjE exE)
      assume "c1 = c"
      with assms(2,3) show ?thesis by simp
    next
      fix k v
      assume a: "Cache c \<noteq> []" "last (Cache c) = (k, v)" "copies c1 = (copies c)(k := None)"
        "Cache c1 = cacheRemove k (Cache c)"
      have "(k, v) \<in> set (Cache c)" using a(1,2) last_in_set[of "Cache c"] by simp
      then have "k \<noteq> key" using True by force
      then have "dom (copies c1) = insert key (fst ` set (Cache c1))"
        using a(3,4) assms(3) by (auto simp: cacheRemove_keys)
      moreover have "distinct (map fst (Cache c1))"
        using a(4) assms(2) by (simp add: cacheRemove_distinct)
      ultimately show ?thesis by simp
    qed
  qed
  then have "dom (copies c1) = fst ` set ((key, val) # cacheRemove key (Cache c1))"
    by (auto simp: cacheRemove_keys)
  moreover have "distinct (map fst ((key, val) # cacheRemove key (Cache c1)))"
    using mid by (simp add: cacheRemove_distinct cacheRemove_keys)
  ultimately show ?thesis
    unfolding c' by (simp add: synced_def logCacheAdd_def printf_def)
qed

lemma cacheExpire_synced:
  assumes "synced c" "cacheExpire G n c key = Done c'"
  shows "synced c'"
proof (cases "map_of (Cache c) key")
  case None
  with assms show ?thesis by (simp add: cacheExpire_def)
next
  case (Some val)
  with assms(2) obtain c1 where
    c1: "evictToDB G n c key val = Done c1" "c' = c1\<lparr>Cache := cacheRemove key (Cache c1)\<rparr>"
    by (auto simp: cacheExpire_def bind_run_Done_iff)
  from evictToDB_effect[OF c1(1)] c1(2) assms(1) show ?thesis
    by (auto simp: synced_def cacheRemove_keys cacheRemove_distinct)
qed

lemma purgeVisit_effect:
  "purgeVisit G n items c = Done c' \<Longrightarrow>
     copies c' = (\<lambda>k. if k \<in> fst ` set items then None else copies c k)
     \<and> Cache c' = Cache c \<and> memory c' = memory c"
proof (induction items arbitrary: c)
  case Nil
  then show ?case by simp
next
  case (Cons kv items)
  obtain k v where kv: "kv = (k, v)" by (cases kv)
  from Cons.prems obtain c1 where
    c1: "purgeToDB G n c k v = Done c1" "purgeVisit G n items c1 = Done c'"
    unfolding kv by (auto simp: bind_run_Done_iff)
  from Cons.IH[OF c1(2)] purgeToDB_effect[OF c1(1)] show ?case
    unfolding kv by auto
qed

lemma cachePurge_synced:
  assumes "synced c" "cachePurge G n c = Done c'"
  shows "synced c'"
proof -
  from assms(2) obtain c1 where
    c1: "purgeVisit G n (Cache c) c = Done c1" "c' = c1\<lparr>Cache := []\<rparr>"
    by (auto simp: cachePurge_def bind_run_Done_iff)
  from purgeVisit_effect[OF c1(1)] assms(1) have "dom (copies c1) = {}"
    by (auto simp: synced_def dom_def split: if_splits)
  with c1(2) show ?thesis by (simp add: synced_def)
qed


lemma Set_effect:
  assumes "Set G n c key v = Done (r, c')"
  shows "\<exists>copy h2. deepCopy n (memory c @ [v]) v = Done (copy, h2)
     \<and> cacheSet G n (c\<lparr>memory := h2, copies := (copies c)(key \<mapsto> copy)\<rparr>) key
           (PtrT (Some (length (memory c)))) = Done (r, c')"
  using assms by (auto simp: Set_def Let_def bind_run_Done_iff)

lemma Set_synced:
  assumes "synced c" "Set G n c key v = Done (r, c')"
  shows "synced c'"
proof -
  from Set_effect[OF assms(2)] obtain copy h2 where
    s: "cacheSet G n (c\<lparr>memory := h2, copies := (copies c)(key \<mapsto> copy)\<rparr>) key
           (PtrT (Some (length (memory c)))) = Done (r, c')" by blast
  show ?thesis
    by (rule cacheSet_synced[OF s]) (use assms(1) in \<open>auto simp: synced_def\<close>)
qed

lemma cacheGet_cases:
  assumes "cacheGet G n c key = Done (r, c')"
  shows "(\<exists>val. map_of (Cache c) key = Some val \<and> r = Inr val
            \<and> c' = c\<lparr>Cache := (key, val) # cacheRemove key (Cache c)\<rparr>)
       \<or> (\<exists>e. map_of (Cache c) key = None \<and> First G (db c) key (memory c) = Inl e
            \<and> r = Inl (FailedToLoad e) \<and> c' = c)
       \<or> (\<exists>entity h1 copy h3. map_of (Cache c) key = None
            \<and> First G (db c) key (memory c) = Inr (entity, h1)
            \<and> deepCopy n (h1 @ [entity]) entity = Done (copy, h3)
            \<and> r = Inr (PtrT (Some (length h1)))
            \<and> cacheSet G n (c\<lparr>memory := h3, copies := (copies c)(key \<mapsto> copy)\<rparr>) key
                 (PtrT (Some (length h1))) = Done (None, c'))"
proof (cases "map_of (Cache c) key")
  case (Some val)
  with assms show ?thesis by (simp add: cacheGet_def)
next
  case None
  show ?thesis
  proof (cases "First G (db c) key (memory c)")
    case (Inl e)
    with assms None show ?thesis by (simp add: cacheGet_def loadFromDB_def)
  next
    case (Inr eh)
    obtain entity h1 where eh: "eh = (entity, h1)" by (cases eh)
    from assms None Inr eh obtain copy h3 where
      d: "deepCopy n (h1 @ [entity]) entity = Done (copy, h3)"
      by (auto simp: cacheGet_def loadFromDB_def Let_def bind_run_Done_iff)
    let ?c1 = "c\<lparr>memory := h3, copies := (copies c)(key \<mapsto> copy)\<rparr>"
    from assms None Inr eh d obtain e2 c2 where
      s: "cacheSet G n ?c1 key (PtrT (Some (length h1))) = Done (e2, c2)"
      by (auto simp: cacheGet_def loadFromDB_def Let_def bind_run_Done_iff)
    from cacheSet_effect[OF s] have "e2 = None" by simp
    with assms None Inr eh d s show ?thesis
      by (simp add: cacheGet_def loadFromDB_def Let_def)
  qed
qed

lemma Get_cacheGet_cases:
  assumes "Get G n c key = Done (r, c')"
  shows "(\<exists>e. r = Inl e \<and> cacheGet G n c key = Done (Inl e, c'))
       \<or> (\<exists>p. r = Inr p \<and> cacheGet G n c key = Done (Inr (PtrT p), c'))"
proof -
  from assms obtain r0 c1 where
    g: "cacheGet G n c key = Done (r0, c1)" and
    f: "(case r0 of Inl err \<Rightarrow> Done (Inl err, c1) | Inr (PtrT p) \<Rightarrow> Done (Inr p, c1)
          | Inr OtherV \<Rightarrow> Panic) = Done (r, c')"
    by (auto simp: Get_def bind_run_Done_iff)
  show ?thesis
  proof (cases r0)
    case (Inl e)
    with f g show ?thesis by simp
  next
    case (Inr d)
    with f g show ?thesis by (cases d) simp_all
  qed
qed

lemma Get_cacheGet:
  "Get G n c key = Done (r, c') \<Longrightarrow> \<exists>r0. cacheGet G n c key = Done (r0, c')"
  by (drule Get_cacheGet_cases) blast

lemma Get_cacheGet_Inr:
  "Get G n c key = Done (Inr p, c') \<Longrightarrow> cacheGet G n c key = Done (Inr (PtrT p), c')"
  by (drule Get_cacheGet_cases) simp

lemma cacheGet_synced:
  assumes "synced c" "cacheGet G n c key = Done (r, c')"
  shows "synced c'"
  using cacheGet_cases[OF assms(2)]
proof (elim disjE exE conjE)
  fix val
  assume a: "map_of (Cache c) key = Some val"
    "c' = c\<lparr>Cache := (key, val) # cacheRemove key (Cache c)\<rparr>"
  from a(1) have "key \<in> fst ` set (Cache c)" by (auto dest: map_of_SomeD intro: rev_image_eqI)
  with assms(1) show ?thesis
    unfolding a(2) by (auto simp: synced_def cacheRemove_keys cacheRemove_distinct)
next
  fix e assume "c' = c"
  with assms(1) show ?thesis by simp
next
  fix h1 :: heap and copy h3
  assume s: "cacheSet G n (c\<lparr>memory := h3, copies := (copies c)(key \<mapsto> copy)\<rparr>) key
                 (PtrT (Some (length h1))) = Done (None, c')"
  show ?thesis
    by (rule cacheSet_synced[OF s]) (use assms(1) in \<open>auto simp: synced_def\<close>)
qed

lemma perform_synced:
  assumes "synced c" "perform G n c op = Done c'"
  shows "synced c'"
proof (cases op)
  case (OpGet key)
  with assms(2) obtain r where "Get G n c key = Done (r, c')"
    by (auto simp: perform_def map_run_def bind_run_Done_iff)
  from Get_cacheGet[OF this] obtain r0 where "cacheGet G n c key = Done (r0, c')" by blast
  with assms(1) show ?thesis by (rule cacheGet_synced)
next
  case (OpSet key v)
  with assms(2) obtain r where "Set G n c key v = Done (r, c')"
    by (auto simp: perform_def map_run_def bind_run_Done_iff)
  with assms(1) show ?thesis by (rule Set_synced)
next
  case (OpExpire key)
  with assms show ?thesis by (auto simp: perform_def intro: cacheExpire_synced)
next
  case OpPurge
  with assms show ?thesis by (auto simp: perform_def intro: cachePurge_synced)
next
  case (OpAssign a v)
  with assms(2) have "c' = c\<lparr>memory := (memory c)[a := v]\<rparr>"
    by (auto simp: perform_def assignThrough_def split: if_splits)
  with assms(1) show ?thesis by (simp add: synced_def)
qed

lemma reachable_synced:
  "reachable G c0 c \<Longrightarrow> synced c0 \<Longrightarrow> synced c"
  by (induction rule: reachable.induct) (auto intro: perform_synced)

lemma NewWithCache_synced: "synced (NewWithCache d sz h0)"
  by (simp add: synced_def NewWithCache_def)

lemma Set_records:
  assumes "Set G n c key v = Done (r, c')"
  shows "\<exists>b k. copies c' key = Some b
     \<and> map_of (Cache c') key = Some (PtrT (Some (length (memory c))))
     \<and> memory c' ! length (memory c) = v
     \<and> (\<forall>m\<ge>k. exportedEqual m (memory c') b v = Done True)"
proof -
  from Set_effect[OF assms] obtain copy h2 where
    d: "deepCopy n (memory c @ [v]) v = Done (copy, h2)" and
    s: "cacheSet G n (c\<lparr>memory := h2, copies := (copies c)(key \<mapsto> copy)\<rparr>) key
           (PtrT (Some (length (memory c)))) = Done (r, c')" by blast
  have p: "prefix (memory c @ [v]) h2" by (rule deepCopy_prefix[OF d])
  have cell: "h2 ! length (memory c) = v" using prefix_nth[OF p, of "length (memory c)"] by simp
  from deepCopy_exportedEqual[OF d] obtain k where
    "\<forall>m\<ge>k. exportedEqual m h2 copy v = Done True" by blast
  with cacheSet_effect[OF s] cell show ?thesis by auto
qed

lemma Get_records:
  assumes "map_of (Cache c) key = None" "Get G n c key = Done (Inr p, c')"
  shows "\<exists>a b k. p = Some a \<and> copies c' key = Some b
     \<and> map_of (Cache c') key = Some (PtrT (Some a)) \<and> a < length (memory c')
     \<and> (\<forall>m\<ge>k. exportedEqual m (memory c') b (memory c' ! a) = Done True)"
proof -
  have g: "cacheGet G n c key = Done (Inr (PtrT p), c')"
    by (rule Get_cacheGet_Inr[OF assms(2)])
  from cacheGet_cases[OF g] assms(1) obtain entity h1 copy h3 where
    d: "deepCopy n (h1 @ [entity]) entity = Done (copy, h3)" and
    r: "p = Some (length h1)" and
    s: "cacheSet G n (c\<lparr>memory := h3, copies := (copies c)(key \<mapsto> copy)\<rparr>) key
                 (PtrT (Some (length h1))) = Done (None, c')"
    by auto
  have pr: "prefix (h1 @ [entity]) h3" by (rule deepCopy_prefix[OF d])
  then have lt: "length h1 < length h3" by (auto dest: prefix_length_le)
  have cell: "h3 ! length h1 = entity" using prefix_nth[OF pr, of "length h1"] by simp
  from deepCopy_exportedEqual[OF d] obtain k where
    "\<forall>m\<ge>k. exportedEqual m h3 copy entity = Done True" by blast
  with r show ?thesis using cacheSet_effect[OF s] cell lt by auto
qed

lemma reachable_cleanState: "reachable rowStore (NewWithCache (account 1 []) 10 []) cleanState"
proof (rule reachable.step[where n = 3 and op = "OpSet 1 (account 1 [])"])
  show "reachable rowStore (NewWithCache (account 1 []) 10 []) (NewWithCache (account 1 []) 10 [])"
    by (rule reachable.start)
  show "perform rowStore 3 (NewWithCache (account 1 []) 10 []) (OpSet 1 (account 1 [])) = Done cleanState"
    by (simp add: perform_def Set_account_clean)
qed

lemma Set_on_cleanState:
  "\<exists>c'. Set rowStore 3 cleanState 2 (account 2 ''y'') = Done (None, c')"
  by (simp add: Set_def cleanState_def deepCopy_def account_def copyField_def cacheSet_def
      cacheRemove_def logCacheAdd_def printf_def eval_nat_numeral)

lemma Get_on_cleanState:
  "\<exists>c'. Get rowStore 3 cleanState 2 = Done (Inr (Some 1), c')"
  by (simp add: Get_def cacheGet_def loadFromDB_def rowStore_def cleanState_def deepCopy_def
      account_def copyField_def cacheSet_def cacheRemove_def logCacheAdd_def printf_def
      eval_nat_numeral)

text \<open>
  Claim C9. After every sequence of \<open>Get\<close>, \<open>Set\<close>, expiry and purge operations (and
  assignments by the caller) that starts from a fresh cache, with capacity evictions
  happening inside \<open>Get\<close> and \<open>Set\<close>, the registry and the cache core hold the same set of
  keys. Whenever a baseline is recorded in such a state, by a \<open>Set\<close> or by the load that
  a \<open>Get\<close> performs on a miss, it is at that moment equal over exported state to the
  live entry, the cell whose address the cache stores under the key.
\<close>

theorem registry_tracks_cache:
  assumes "reachable G (NewWithCache d sz h0) c"
  shows "dom (copies c) = fst ` set (Cache c)
     \<and> (\<forall>n key v r c'. Set G n c key v = Done (r, c') \<longrightarrow>
          (\<exists>b k. copies c' key = Some b
             \<and> map_of (Cache c') key = Some (PtrT (Some (length (memory c))))
             \<and> memory c' ! length (memory c) = v
             \<and> (\<forall>m\<ge>k. exportedEqual m (memory c') b v = Done True)))
     \<and> (\<forall>n key p c'. map_of (Cache c) key = None \<and> Get G n c key = Done (Inr p, c') \<longrightarrow>
          (\<exists>a b k. p = Some a \<and> copies c' key = Some b
             \<and> map_of (Cache c') key = Some (PtrT (Some a)) \<and> a < length (memory c')
             \<and> (\<forall>m\<ge>k. exportedEqual m (memory c') b (memory c' ! a) = Done True)))"
proof -
  have "synced c" by (rule reachable_synced[OF assms NewWithCache_synced])
  then have "dom (copies c) = fst ` set (Cache c)" by (simp add: synced_def)
  then show ?thesis by (blast dest: Set_records Get_records)
qed

theorem registry_tracks_cache_witness:
  "reachable rowStore (NewWithCache (account 1 []) 10 []) cleanState
   \<and> dom (copies cleanState) = fst ` set (Cache cleanState)
   \<and> (\<exists>c' b k. Set rowStore 3 cleanState 2 (account 2 ''y'') = Done (None, c')
         \<and> copies c' 2 = Some b
         \<and> (\<forall>m\<ge>k. exportedEqual m (memory c') b (account 2 ''y'') = Done True))
   \<and> map_of (Cache cleanState) 2 = None
   \<and> (\<exists>c' b k. Get rowStore 3 cleanState 2 = Done (Inr (Some 1), c')
         \<and> copies c' 2 = Some b
         \<and> (\<forall>m\<ge>k. exportedEqual m (memory c') b (memory c' ! 1) = Done True))"
proof -
  note t = registry_tracks_cache[OF reachable_cleanState]
  from t have 1: "dom (copies cleanState) = fst ` set (Cache cleanState)" by blast
  from Set_on_cleanState obtain c1 where
    s: "Set rowStore 3 cleanState 2 (account 2 ''y'') = Done (None, c1)" by blast
  from t s have 2: "\<exists>b k. copies c1 2 = Some b
         \<and> (\<forall>m\<ge>k. exportedEqual m (memory c1) b (account 2 ''y'') = Done True)"
    by blast
  have miss: "map_of (Cache cleanState) 2 = None" by (simp add: cleanState_def)
  from Get_on_cleanState obtain c2 where
    g: "Get rowStore 3 cleanState 2 = Done (Inr (Some 1), c2)" by blast
  from t miss g have "\<exists>a b k. Some 1 = Some a \<and> copies c2 2 = Some b
             \<and> map_of (Cache c2) 2 = Some (PtrT (Some a)) \<and> a < length (memory c2)
             \<and> (\<forall>m\<ge>k. exportedEqual m (memory c2) b (memory c2 ! a) = Done True)"
    by blast
  then have 3: "\<exists>b k. copies c2 2 = Some b
         \<and> (\<forall>m\<ge>k. exportedEqual m (memory c2) b (memory c2 ! 1) = Done True)"
    by auto
  from reachable_cleanState 1 s 2 miss g 3 show ?thesis by blast
qed


section \<open>When the write-back updates the database\<close>










end
